theory Spec2Isabelle
  imports Main "HOL-Library.Word" "HOL-Library.Monad_Syntax"
begin

unbundle bit_operations_syntax

section \<open>The bit stream (ByteStreamWriterBase, ByteStreamReaderBase)\<close>

text \<open>
  \<^verbatim>\<open>src/til/Bytecode.h\<close> declares the stream classes; the bodies of \<^verbatim>\<open>writeBits32\<close>,
  \<^verbatim>\<open>writeBits64\<close>, \<^verbatim>\<open>writeUInt32_Vbr\<close>, \<^verbatim>\<open>writeUInt64_Vbr\<close>, \<^verbatim>\<open>endAtom\<close> and of their
  reading counterparts live in \<^verbatim>\<open>Bytecode.cpp\<close>, which is not among the sources. Those
  bodies are modelled from the specification; every inline method of the header
  (\<^verbatim>\<open>writeBool\<close>, \<^verbatim>\<open>writeUInt8\<close>, \<^verbatim>\<open>writeInt8\<close>, \<^verbatim>\<open>readInt8\<close>, \<^verbatim>\<open>writeOpcode\<close>,
  \<^verbatim>\<open>getOpcode\<close>, \<^verbatim>\<open>fail\<close>, ...) is translated from the header itself.

  The stream is a sequence of bits. Bit \<open>k\<close> of the stream is bit \<open>k mod 8\<close> of byte
  \<open>k div 8\<close> (least significant bit first), so the byte index and in-byte bit offset
  that the specification gives the writer are the length of the bit list written so
  far.  The header itself declares one cursor, \<open>Pos\<close>, next to the byte buffer; how
  the absent bodies place a field of \<open>N\<close> bits in the bytes is taken from the
  specification.  Every statement below that reads back what was written holds for any
  bits that follow in the stream.
\<close>

type_synonym bitstream = "bool list"

text \<open>
  The writer: \<open>Buffer\<close> holds the bits written since the last \<^verbatim>\<open>endAtom\<close>, \<open>Atoms\<close>
  the atoms closed so far, oldest first.
\<close>

record ByteStreamWriter =
  Atoms :: "bitstream list"
  Buffer :: bitstream

definition newByteStreamWriter :: ByteStreamWriter where
  "newByteStreamWriter = \<lparr>Atoms = [], Buffer = []\<rparr>"

definition stream :: "ByteStreamWriter \<Rightarrow> bitstream" where
  "stream w = concat (Atoms w) @ Buffer w"

text \<open>
  Modelled from the spec: \<^verbatim>\<open>ByteStreamWriterBase::endAtom\<close> (body in Bytecode.cpp).
  "Mark the end of an atom"; atoms are bit-contiguous, the writer does not pad
  between them.
\<close>

definition endAtom :: "ByteStreamWriter \<Rightarrow> ByteStreamWriter" where
  "endAtom w = \<lparr>Atoms = Atoms w @ [Buffer w], Buffer = []\<rparr>"

text \<open>
  Modelled from the spec: \<^verbatim>\<open>writeBits32\<close> and \<^verbatim>\<open>writeBits64\<close> (bodies in Bytecode.cpp).
  "To write N bits of value V: shift V into the current byte at the current bit
  offset; if N exceeds the remaining bits of the current byte, spill into subsequent
  bytes, always LSB-first."  The bits \<open>0 ..< Nbits\<close> of \<open>V\<close> are appended, lowest first.
\<close>

definition writeBits :: "'a::len word \<Rightarrow> nat \<Rightarrow> ByteStreamWriter \<Rightarrow> ByteStreamWriter" where
  "writeBits V Nbits w = w\<lparr>Buffer := Buffer w @ map (bit V) [0..<Nbits]\<rparr>"

definition writeBits32 :: "32 word \<Rightarrow> nat \<Rightarrow> ByteStreamWriter \<Rightarrow> ByteStreamWriter" where
  "writeBits32 V Nbits w = writeBits V Nbits w"

definition writeBits64 :: "64 word \<Rightarrow> nat \<Rightarrow> ByteStreamWriter \<Rightarrow> ByteStreamWriter" where
  "writeBits64 V Nbits w = writeBits V Nbits w"

text \<open>
  Modelled from the spec: \<^verbatim>\<open>readBits32\<close> and \<^verbatim>\<open>readBits64\<close> (bodies in Bytecode.cpp),
  "symmetric to the writer".  Reading past the end of the stream is fatal: \<open>None\<close>
  stands for the reader's \<open>Error\<close> flag being set.
\<close>

definition readBits :: "nat \<Rightarrow> bitstream \<Rightarrow> ('a::len word \<times> bitstream) option" where
  "readBits Nbits inp =
     (if length inp < Nbits then None
      else Some (horner_sum of_bool 2 (take Nbits inp), drop Nbits inp))"

definition readBits32 :: "nat \<Rightarrow> bitstream \<Rightarrow> (32 word \<times> bitstream) option" where
  "readBits32 Nbits inp = readBits Nbits inp"

definition readBits64 :: "nat \<Rightarrow> bitstream \<Rightarrow> (64 word \<times> bitstream) option" where
  "readBits64 Nbits inp = readBits Nbits inp"

text \<open>
  Modelled from the spec: \<^verbatim>\<open>writeUInt32_Vbr\<close> and \<^verbatim>\<open>writeUInt64_Vbr\<close> (bodies in
  Bytecode.cpp).  "Emit 7-bit groups LSB-first; for each group, first write the 1-bit
  continuation flag (1 if more nonzero bits remain ...), then the 7-bit group."
\<close>

function writeVbr :: "'a::len word \<Rightarrow> ByteStreamWriter \<Rightarrow> ByteStreamWriter" where
  "writeVbr V w =
     (if drop_bit 7 V \<noteq> 0
      then writeVbr (drop_bit 7 V) (writeBits (V AND 0x7F) 7 (writeBits (1 :: 'a word) 1 w))
      else writeBits (V AND 0x7F) 7 (writeBits (0 :: 'a word) 1 w))"
  by pat_completeness auto
termination
proof (relation "measure (\<lambda>(V, w). unat V)")
  show "wf (measure (\<lambda>(V :: 'a word, w :: ByteStreamWriter). unat V))"
    by simp
next
  fix V :: "'a word" and w :: ByteStreamWriter
  assume "drop_bit 7 V \<noteq> 0"
  then have "V \<noteq> 0" by auto
  then have "0 < unat V" by (simp add: unat_gt_0)
  then have "unat V div 2 ^ 7 < unat V" by simp
  moreover have "unat (drop_bit 7 V) = unat V div 2 ^ 7"
    unfolding unat_drop_bit_eq by (rule drop_bit_eq_div)
  ultimately have "unat (drop_bit 7 V) < unat V" by simp
  then show "((drop_bit 7 V, writeBits (V AND 0x7F) 7 (writeBits (1 :: 'a word) 1 w)), (V, w))
      \<in> measure (\<lambda>(V, w). unat V)"
    by simp
qed

declare writeVbr.simps [simp del]

definition writeUInt32_Vbr :: "32 word \<Rightarrow> ByteStreamWriter \<Rightarrow> ByteStreamWriter" where
  "writeUInt32_Vbr V w = writeVbr V w"

definition writeUInt64_Vbr :: "64 word \<Rightarrow> ByteStreamWriter \<Rightarrow> ByteStreamWriter" where
  "writeUInt64_Vbr V w = writeVbr V w"

text \<open>
  The number of groups the writer's loop emits for \<open>V\<close> (one pass of the loop each).
\<close>

function vbrGroups :: "'a::len word \<Rightarrow> nat" where
  "vbrGroups V = (if drop_bit 7 V \<noteq> 0 then Suc (vbrGroups (drop_bit 7 V)) else 1)"
  by pat_completeness auto
termination
proof (relation "measure unat")
  show "wf (measure (unat :: 'a word \<Rightarrow> nat))"
    by simp
next
  fix V :: "'a word"
  assume "drop_bit 7 V \<noteq> 0"
  then have "V \<noteq> 0" by auto
  then have "0 < unat V" by (simp add: unat_gt_0)
  then have "unat V div 2 ^ 7 < unat V" by simp
  moreover have "unat (drop_bit 7 V) = unat V div 2 ^ 7"
    unfolding unat_drop_bit_eq by (rule drop_bit_eq_div)
  ultimately show "(drop_bit 7 V, V) \<in> measure unat" by simp
qed

declare vbrGroups.simps [simp del]

text \<open>
  Modelled from the spec: \<^verbatim>\<open>readUInt32_Vbr\<close> and \<^verbatim>\<open>readUInt64_Vbr\<close> (bodies in
  Bytecode.cpp).  Each pass reads the continuation flag, then the 7-bit group, and
  ors the group in at bit offset \<open>B\<close>.  "The decoder accepts up to 5 groups for 32-bit
  and 10 for 64-bit"; a longer continuation chain is fatal (\<open>None\<close>).  The first
  argument counts the groups still permitted.
\<close>

fun readVbr :: "nat \<Rightarrow> nat \<Rightarrow> 'a::len word \<Rightarrow> bitstream \<Rightarrow> ('a word \<times> bitstream) option" where
  "readVbr 0 B V inp = None"
| "readVbr (Suc k) B V inp =
     do {
       (flag :: 'a word, inp1) \<leftarrow> readBits 1 inp;
       (g :: 'a word, inp2) \<leftarrow> readBits 7 inp1;
       if flag = 0 then Some (V OR push_bit B g, inp2)
       else readVbr k (B + 7) (V OR push_bit B g) inp2
     }"

definition readUInt32_Vbr :: "bitstream \<Rightarrow> (32 word \<times> bitstream) option" where
  "readUInt32_Vbr inp = readVbr 5 0 0 inp"

definition readUInt64_Vbr :: "bitstream \<Rightarrow> (64 word \<times> bitstream) option" where
  "readUInt64_Vbr inp = readVbr 10 0 0 inp"

text \<open>
  The wire layout the specification describes for a value sent in \<open>n\<close> groups:
  group \<open>i\<close> carries bits \<open>7i ..< 7i+7\<close> of the value, lowest first, behind a flag that
  is set exactly when another group follows.
\<close>

definition vbrLayout :: "nat \<Rightarrow> 'a::len word \<Rightarrow> bitstream" where
  "vbrLayout n V = concat (map (\<lambda>i. (Suc i < n) # map (bit V) [7 * i..<7 * i + 7]) [0..<n])"

subsection \<open>The inline scalar writers and readers of the header\<close>

text \<open>
  Bytecode.h, lines 103-113 and 173-183.  An unsigned C++ integer of width \<open>n\<close> is an
  \<open>n word\<close>; a signed one is the \<open>n word\<close> of its two's-complement pattern, read with
  \<open>sint\<close>.  \<^verbatim>\<open>static_cast<uint8_t>(V)\<close> keeps the pattern, and passing the unsigned
  result for the \<^verbatim>\<open>uint32_t\<close> parameter of \<^verbatim>\<open>writeBits32\<close> extends it with zeros
  (\<open>ucast\<close>); narrowing \<^verbatim>\<open>static_cast\<close>s on the reading side keep the low bits
  (\<open>ucast\<close> again).
\<close>

definition writeBool :: "bool \<Rightarrow> ByteStreamWriter \<Rightarrow> ByteStreamWriter" where
  "writeBool V w = writeBits32 (of_bool V) 1 w"

definition writeUInt8 :: "8 word \<Rightarrow> ByteStreamWriter \<Rightarrow> ByteStreamWriter" where
  "writeUInt8 V w = writeBits32 (ucast V) 8 w"

definition writeUInt16 :: "16 word \<Rightarrow> ByteStreamWriter \<Rightarrow> ByteStreamWriter" where
  "writeUInt16 V w = writeUInt32_Vbr (ucast V) w"

definition writeUInt32 :: "32 word \<Rightarrow> ByteStreamWriter \<Rightarrow> ByteStreamWriter" where
  "writeUInt32 V w = writeUInt32_Vbr V w"

definition writeUInt64 :: "64 word \<Rightarrow> ByteStreamWriter \<Rightarrow> ByteStreamWriter" where
  "writeUInt64 V w = writeUInt64_Vbr V w"

definition writeInt8 :: "8 word \<Rightarrow> ByteStreamWriter \<Rightarrow> ByteStreamWriter" where
  "writeInt8 V w = writeBits32 (ucast V) 8 w"

definition writeInt16 :: "16 word \<Rightarrow> ByteStreamWriter \<Rightarrow> ByteStreamWriter" where
  "writeInt16 V w = writeBits32 (ucast V) 16 w"

definition writeInt32 :: "32 word \<Rightarrow> ByteStreamWriter \<Rightarrow> ByteStreamWriter" where
  "writeInt32 V w = writeBits32 V 32 w"

definition writeInt64 :: "64 word \<Rightarrow> ByteStreamWriter \<Rightarrow> ByteStreamWriter" where
  "writeInt64 V w = writeBits64 V 64 w"

definition readBool :: "bitstream \<Rightarrow> (bool \<times> bitstream) option" where
  "readBool inp = map_option (\<lambda>(v, rest). (v \<noteq> 0, rest)) (readBits32 1 inp)"

definition readUInt8 :: "bitstream \<Rightarrow> (8 word \<times> bitstream) option" where
  "readUInt8 inp = map_option (\<lambda>(v, rest). (ucast v, rest)) (readBits32 8 inp)"

definition readUInt16 :: "bitstream \<Rightarrow> (16 word \<times> bitstream) option" where
  "readUInt16 inp = map_option (\<lambda>(v, rest). (ucast v, rest)) (readUInt32_Vbr inp)"

definition readUInt32 :: "bitstream \<Rightarrow> (32 word \<times> bitstream) option" where
  "readUInt32 inp = readUInt32_Vbr inp"

definition readUInt64 :: "bitstream \<Rightarrow> (64 word \<times> bitstream) option" where
  "readUInt64 inp = readUInt64_Vbr inp"

definition readInt8 :: "bitstream \<Rightarrow> (8 word \<times> bitstream) option" where
  "readInt8 inp = map_option (\<lambda>(v, rest). (ucast v, rest)) (readBits32 8 inp)"

definition readInt16 :: "bitstream \<Rightarrow> (16 word \<times> bitstream) option" where
  "readInt16 inp = map_option (\<lambda>(v, rest). (ucast v, rest)) (readBits32 16 inp)"

definition readInt32 :: "bitstream \<Rightarrow> (32 word \<times> bitstream) option" where
  "readInt32 inp = readBits32 32 inp"

definition readInt64 :: "bitstream \<Rightarrow> (64 word \<times> bitstream) option" where
  "readInt64 inp = readBits64 64 inp"

section \<open>Opcodes and field widths (BytecodeBase)\<close>

text \<open>
  The enumeration \<^verbatim>\<open>PseudoOpcode : uint8_t\<close> of Bytecode.h, lines 33-44, as the
  \<^verbatim>\<open>uint8_t\<close> values of its enumerators.
\<close>

definition PSOP_Null :: "8 word" where "PSOP_Null = 0"
definition PSOP_EnterScope :: "8 word" where "PSOP_EnterScope = 4"
definition PSOP_ExitScope :: "8 word" where "PSOP_ExitScope = 5"
definition PSOP_EnterCFG :: "8 word" where "PSOP_EnterCFG = 7"
definition PSOP_Annotation :: "8 word" where "PSOP_Annotation = 8"
definition PSOP_Last :: "8 word" where "PSOP_Last = 9"

text \<open>
  The overloads of \<^verbatim>\<open>getBitSizeImpl\<close> (lines 48-58), one per enumerated field type.
  The types themselves are declared in TIL.h; only their names matter here.
\<close>

datatype FieldKind =
    F_PseudoOpcode
  | F_TIL_Opcode
  | F_TIL_AnnKind
  | F_TIL_UnaryOpcode
  | F_TIL_BinaryOpcode
  | F_TIL_CastOpcode
  | F_VariableKind
  | F_CallingConvention
  | F_ApplyKind
  | F_AllocKind

fun getBitSizeImpl :: "FieldKind \<Rightarrow> nat" where
  "getBitSizeImpl F_PseudoOpcode = 6"
| "getBitSizeImpl F_TIL_Opcode = 6"
| "getBitSizeImpl F_TIL_AnnKind = 8"
| "getBitSizeImpl F_TIL_UnaryOpcode = 6"
| "getBitSizeImpl F_TIL_BinaryOpcode = 6"
| "getBitSizeImpl F_TIL_CastOpcode = 6"
| "getBitSizeImpl F_VariableKind = 2"
| "getBitSizeImpl F_CallingConvention = 4"
| "getBitSizeImpl F_ApplyKind = 2"
| "getBitSizeImpl F_AllocKind = 2"

definition getBitSize :: "FieldKind \<Rightarrow> nat" where
  "getBitSize T = getBitSizeImpl T"

text \<open>
  \<^verbatim>\<open>BytecodeWriter::writeFlag\<close>, \<^verbatim>\<open>writePseudoOpcode\<close>, \<^verbatim>\<open>writeOpcode\<close> (lines 213-223)
  and \<^verbatim>\<open>BytecodeReader::readFlag\<close>, \<^verbatim>\<open>readPseudoOpcode\<close>, \<^verbatim>\<open>getOpcode\<close> (lines
  353-360).  A flag reaches \<^verbatim>\<open>writeBits32\<close> as a \<^verbatim>\<open>uint32_t\<close>.  A \<^verbatim>\<open>TIL_Opcode\<close> is
  the unsigned value the addition in \<^verbatim>\<open>writeOpcode\<close> sees; the sum is narrowed to the
  \<^verbatim>\<open>uint8_t\<close> of \<^verbatim>\<open>PseudoOpcode\<close>.
\<close>

definition writeFlag :: "FieldKind \<Rightarrow> 32 word \<Rightarrow> ByteStreamWriter \<Rightarrow> ByteStreamWriter" where
  "writeFlag T Flag w = writeBits32 Flag (getBitSize T) w"

definition writePseudoOpcode :: "8 word \<Rightarrow> ByteStreamWriter \<Rightarrow> ByteStreamWriter" where
  "writePseudoOpcode Psop w = writeFlag F_PseudoOpcode (ucast Psop) w"

definition writeOpcode :: "32 word \<Rightarrow> ByteStreamWriter \<Rightarrow> ByteStreamWriter" where
  "writeOpcode Op w = writePseudoOpcode (ucast ((ucast PSOP_Last :: 32 word) + Op)) w"

definition readFlag :: "FieldKind \<Rightarrow> bitstream \<Rightarrow> (32 word \<times> bitstream) option" where
  "readFlag T inp = readBits32 (getBitSize T) inp"

definition readPseudoOpcode :: "bitstream \<Rightarrow> (8 word \<times> bitstream) option" where
  "readPseudoOpcode inp = map_option (\<lambda>(v, rest). (ucast v, rest)) (readFlag F_PseudoOpcode inp)"

definition getOpcode :: "8 word \<Rightarrow> 32 word" where
  "getOpcode Psop = ucast Psop - ucast PSOP_Last"

text \<open>
  Modelled from the spec: the range test of \<^verbatim>\<open>BytecodeReader::readSExpr\<close> (body in
  Bytecode.cpp).  "If the opcode is a real IR opcode (\<open>\<ge> PSOP_Last\<close>), dispatch to the
  per-opcode reader ... If the opcode is a pseudo-opcode, handle per the enumerated
  list."
\<close>

datatype Dispatch = Pseudo "8 word" | Real "32 word"

definition dispatch :: "8 word \<Rightarrow> Dispatch" where
  "dispatch Psop = (if PSOP_Last \<le> Psop then Real (getOpcode Psop) else Pseudo Psop)"

section \<open>Round trip of the bit fields and of the VBR integers\<close>

lemma stream_writeBits:
  "stream (writeBits V n w) = stream w @ map (bit V) [0..<n]"
  by (simp add: stream_def writeBits_def)

lemma Atoms_writeBits: "Atoms (writeBits V n w) = Atoms w"
  by (simp add: writeBits_def)

lemma readBits_bits:
  "readBits n (map (bit V) [0..<n] @ rest) = Some (take_bit n V, rest)"
  by (simp add: readBits_def horner_sum_bit_eq_take_bit)

lemma readBits_consumes:
  "readBits n inp = Some (v, rest) \<Longrightarrow> inp = take n inp @ rest \<and> length (take n inp) = n"
  by (auto simp add: readBits_def split: if_splits)

lemma and_0x7F: "(V :: 'a::len word) AND 0x7F = take_bit 7 V"
  by (simp add: take_bit_eq_mask mask_eq_exp_minus_1)

lemma unat_drop_bit7_less:
  fixes V :: "'a::len word"
  assumes "drop_bit 7 V \<noteq> 0"
  shows "unat (drop_bit 7 V) < unat V"
proof -
  from assms have "V \<noteq> 0" by auto
  then have "0 < unat V" by (simp add: unat_gt_0)
  then have "unat V div 2 ^ 7 < unat V" by simp
  moreover have "unat (drop_bit 7 V) = unat V div 2 ^ 7"
    unfolding unat_drop_bit_eq by (rule drop_bit_eq_div)
  ultimately show ?thesis by simp
qed

lemma vbrLayout_Suc:
  "vbrLayout (Suc n) V = (0 < n) # map (bit V) [0..<7] @ vbrLayout n (drop_bit 7 V)"
proof -
  have shift: "map (bit V) [7 * Suc i..<7 * Suc i + 7] = map (bit (drop_bit 7 V)) [7 * i..<7 * i + 7]" for i
  proof -
    have "[a..<a + 7] = map (\<lambda>j. j + a) [0..<7]" for a :: nat
      by (simp only: map_add_upt add.commute)
    from this[of "7 * Suc i"] this[of "7 * i"] show ?thesis
      by (simp only: list.map_comp comp_def bit_drop_bit_eq) (simp add: ac_simps)
  qed
  have "[0..<Suc n] = 0 # map Suc [0..<n]"
    by (simp add: upt_conv_Cons map_Suc_upt del: upt_Suc)
  then have "vbrLayout (Suc n) V =
      (Suc 0 < Suc n) # map (bit V) [7 * 0..<7 * 0 + 7] @
      concat (map (\<lambda>i. (Suc (Suc i) < Suc n) # map (bit V) [7 * Suc i..<7 * Suc i + 7]) [0..<n])"
    unfolding vbrLayout_def by (simp only: list.map concat.simps list.map_comp comp_def append_Cons)
  also have "\<dots> = (0 < n) # map (bit V) [0..<7] @ vbrLayout n (drop_bit 7 V)"
    unfolding shift vbrLayout_def by simp
  finally show ?thesis .
qed

lemma vbrLayout_groups:
  "vbrLayout (vbrGroups V) V =
     (drop_bit 7 V \<noteq> 0) # map (bit V) [0..<7] @
     (if drop_bit 7 V \<noteq> 0 then vbrLayout (vbrGroups (drop_bit 7 V)) (drop_bit 7 V) else [])"
proof (cases "drop_bit 7 V = 0")
  case True
  then have "vbrGroups V = Suc 0" by (subst vbrGroups.simps) simp
  then show ?thesis using True by (simp add: vbrLayout_Suc) (simp add: vbrLayout_def)
next
  case False
  then have g: "vbrGroups V = Suc (vbrGroups (drop_bit 7 V))" by (subst vbrGroups.simps) simp
  have "0 < vbrGroups (drop_bit 7 V)" by (subst vbrGroups.simps) simp
  then show ?thesis using False unfolding g vbrLayout_Suc by simp
qed

lemma writeVbr_layout:
  "writeVbr V w = w\<lparr>Buffer := Buffer w @ vbrLayout (vbrGroups V) V\<rparr>"
proof (induction "unat V" arbitrary: V w rule: less_induct)
  case less
  have bits: "map (bit (V AND 0x7F)) [0..<7] = map (bit V) [0..<7]"
    unfolding and_0x7F by (simp add: bit_take_bit_iff)
  show ?case
  proof (cases "drop_bit 7 V = 0")
    case True
    then show ?thesis
      by (subst writeVbr.simps, subst vbrLayout_groups) (simp add: writeBits_def bits)
  next
    case False
    then have lt: "unat (drop_bit 7 V) < unat V"
      by (rule unat_drop_bit7_less)
    show ?thesis
      using False
      by (subst writeVbr.simps, subst vbrLayout_groups) (simp add: less(1)[OF lt] writeBits_def bits)
  qed
qed

lemma stream_writeVbr: "stream (writeVbr V w) = stream w @ vbrLayout (vbrGroups V) V"
  by (simp add: writeVbr_layout stream_def)

lemma vbrGroups_pos: "0 < vbrGroups V"
  by (subst vbrGroups.simps) simp

lemma vbrGroups_le:
  fixes V :: "'a::len word"
  assumes "drop_bit (7 * n) V = 0" "0 < n"
  shows "vbrGroups V \<le> n"
  using assms
proof (induction n arbitrary: V)
  case 0
  then show ?case by simp
next
  case (Suc n)
  show ?case
  proof (cases "drop_bit 7 V = 0")
    case True
    then show ?thesis by (subst vbrGroups.simps) simp
  next
    case False
    have d: "drop_bit (7 * n) (drop_bit 7 V) = 0"
      using Suc.prems(1) by (simp add: drop_bit_drop_bit add.commute)
    with False have "0 < n" by (cases n) auto
    from Suc.IH[OF d this] False show ?thesis by (subst vbrGroups.simps) simp
  qed
qed

lemma vbrGroups_32: "vbrGroups (V :: 32 word) \<le> 5"
  by (rule vbrGroups_le) simp_all

lemma vbrGroups_64: "vbrGroups (V :: 64 word) \<le> 10"
  by (rule vbrGroups_le) simp_all

lemma readVbr_step:
  fixes g acc :: "'a::len word"
  shows "readVbr (Suc k) B acc (flag # map (bit g) [0..<7] @ rest) =
     (if \<not> flag then Some (acc OR push_bit B (take_bit 7 g), rest)
      else readVbr k (B + 7) (acc OR push_bit B (take_bit 7 g)) rest)"
proof -
  have "readBits 1 (flag # map (bit g) [0..<7] @ rest) = Some (of_bool flag :: 'a word, map (bit g) [0..<7] @ rest)"
    by (simp add: readBits_def)
  then show ?thesis
    by (simp add: readBits_bits)
qed

lemma readVbr_layout:
  fixes W V acc :: "'a::len word"
  assumes "LENGTH('a) \<le> B + 7 * k" "0 < k" "V = drop_bit B W" "acc = take_bit B W"
  shows "readVbr k B acc (vbrLayout (vbrGroups V) V @ rest) = Some (W, rest)"
  using assms
proof (induction k arbitrary: B V acc)
  case 0
  then show ?case by simp
next
  case (Suc k)
  have grp: "acc OR push_bit B (take_bit 7 V) = take_bit (B + 7) W"
    unfolding Suc.prems
    by (rule bit_word_eqI) (auto simp add: bit_simps)
  show ?case
  proof (cases "drop_bit 7 V = 0")
    case True
    then have "drop_bit (B + 7) W = 0"
      using Suc.prems(3) by (simp add: drop_bit_drop_bit add.commute)
    then have full: "take_bit (B + 7) W = W"
      by (simp add: take_bit_eq_self_iff_drop_bit_eq_0)
    have lay: "vbrLayout (vbrGroups V) V @ rest = False # map (bit V) [0..<7] @ rest"
      using True by (subst vbrLayout_groups) simp
    show ?thesis
      unfolding lay readVbr_step grp full by simp
  next
    case False
    then have nz: "drop_bit (B + 7) W \<noteq> 0"
      using Suc.prems(3) by (simp add: drop_bit_drop_bit add.commute)
    have "B + 7 < LENGTH('a)"
    proof (rule ccontr)
      assume "\<not> B + 7 < LENGTH('a)"
      then have "drop_bit (B + 7) W = 0"
        by (simp add: drop_bit_word_beyond)
      with nz show False by simp
    qed
    then have k: "0 < k" "LENGTH('a) \<le> (B + 7) + 7 * k"
      using Suc.prems(1) by auto
    have lay: "vbrLayout (vbrGroups V) V @ rest
        = True # map (bit V) [0..<7] @ vbrLayout (vbrGroups (drop_bit 7 V)) (drop_bit 7 V) @ rest"
      using False by (subst vbrLayout_groups) simp
    have ih: "readVbr k (B + 7) (take_bit (B + 7) W)
        (vbrLayout (vbrGroups (drop_bit 7 V)) (drop_bit 7 V) @ rest) = Some (W, rest)"
      by (rule Suc.IH[OF k(2) k(1)]) (simp_all add: Suc.prems(3) add.commute)
    show ?thesis
      unfolding lay readVbr_step grp ih by simp
  qed
qed

lemma readVbr_accepts:
  "readVbr n B acc inp = Some (v, rest) \<Longrightarrow>
     \<exists>m. 1 \<le> m \<and> m \<le> n \<and> inp = take (8 * m) inp @ rest \<and> length inp = 8 * m + length rest"
proof (induction n arbitrary: B acc inp)
  case 0
  then show ?case by simp
next
  case (Suc n)
  from Suc.prems obtain flag :: "'a word" and inp1 where r1: "readBits 1 inp = Some (flag, inp1)"
    by (auto split: Option.bind_splits)
  with Suc.prems obtain g :: "'a word" and inp2 where r2: "readBits 7 inp1 = Some (g, inp2)"
    by (auto split: Option.bind_splits)
  from r1 have i1: "inp = take 1 inp @ inp1" "1 \<le> length inp"
    by (auto simp add: readBits_def Suc_le_eq split: if_splits)
  from r2 have i2: "inp1 = take 7 inp1 @ inp2" "7 \<le> length inp1"
    by (auto simp add: readBits_def split: if_splits)
  have inp1: "inp1 = drop 1 inp" and inp2: "inp2 = drop 7 inp1"
    using r1 r2 by (auto simp add: readBits_def split: if_splits)
  have inp2': "inp2 = drop 8 inp" and len: "8 \<le> length inp"
    using inp1 inp2 i1 i2 by auto
  show ?case
  proof (cases "flag = 0")
    case True
    with Suc.prems r1 r2 have "rest = inp2" by simp
    then have "inp = take (8 * 1) inp @ rest \<and> length inp = 8 * 1 + length rest"
      using inp2' len by simp
    then show ?thesis by (intro exI[of _ 1]) simp
  next
    case False
    with Suc.prems r1 r2 have "readVbr n (B + 7) (acc OR push_bit B g) inp2 = Some (v, rest)"
      by simp
    from Suc.IH[OF this] obtain m where m: "1 \<le> m" "m \<le> n"
      "inp2 = take (8 * m) inp2 @ rest" "length inp2 = 8 * m + length rest"
      by blast
    have "rest = drop (8 * m) inp2"
      using m(3,4) by (metis append_eq_conv_conj length_take min.absorb2 le_add1 )
    then have "rest = drop (8 * Suc m) inp"
      using inp2' by (simp add: add.commute)
    then have "inp = take (8 * Suc m) inp @ rest" by simp
    moreover have "length inp = 8 * Suc m + length rest"
      using m(4) inp2' len by simp
    ultimately show ?thesis using m(1,2) by (intro exI[of _ "Suc m"]) simp
  qed
qed

lemma readVbr_rejects:
  "(\<forall>i<n. 8 * i < length inp \<and> inp ! (8 * i)) \<Longrightarrow> readVbr n B acc inp = None"
proof (induction n arbitrary: B acc inp)
  case 0
  then show ?case by simp
next
  case (Suc n)
  show ?case
  proof (cases "readBits 1 inp :: ('a word \<times> bitstream) option")
    case None
    then show ?thesis by simp
  next
    case (Some a)
    then obtain flag :: "'a word" and inp1 where r1: "readBits 1 inp = Some (flag, inp1)"
      by (cases a) auto
    from Suc.prems have "0 < length inp" "inp ! 0" by force+
    then have flag: "flag = 1" and inp1: "inp1 = drop 1 inp"
      using r1 by (auto simp add: readBits_def take_Suc_conv_app_nth split: if_splits)
    show ?thesis
    proof (cases "readBits 7 inp1 :: ('a word \<times> bitstream) option")
      case None
      then show ?thesis using r1 by simp
    next
      case (Some b)
      then obtain g :: "'a word" and inp2 where r2: "readBits 7 inp1 = Some (g, inp2)"
        by (cases b) auto
      then have inp2: "inp2 = drop 8 inp"
        using inp1 by (auto simp add: readBits_def split: if_splits)
      have "\<forall>i<n. 8 * i < length inp2 \<and> inp2 ! (8 * i)"
      proof (intro allI impI)
        fix i assume "i < n"
        then have "8 * Suc i < length inp \<and> inp ! (8 * Suc i)"
          using Suc.prems by (metis Suc_less_eq)
        then show "8 * i < length inp2 \<and> inp2 ! (8 * i)"
          unfolding inp2 by (auto simp add: add.commute)
      qed
      from Suc.IH[OF this] show ?thesis
        using r1 r2 flag by simp
    qed
  qed
qed

lemma stream_new: "stream newByteStreamWriter = []"
  by (simp add: stream_def newByteStreamWriter_def)

lemma stream_writeBits32: "stream (writeBits32 V n w) = stream w @ map (bit V) [0..<n]"
  by (simp add: writeBits32_def stream_writeBits)

lemma stream_writeBits64: "stream (writeBits64 V n w) = stream w @ map (bit V) [0..<n]"
  by (simp add: writeBits64_def stream_writeBits)

lemma readBits32_bits: "readBits32 n (map (bit V) [0..<n] @ rest) = Some (take_bit n V, rest)"
  by (simp add: readBits32_def readBits_bits)

lemma readBits64_bits: "readBits64 n (map (bit V) [0..<n] @ rest) = Some (take_bit n V, rest)"
  by (simp add: readBits64_def readBits_bits)

lemma stream_writeUInt32_Vbr:
  "stream (writeUInt32_Vbr V w) = stream w @ vbrLayout (vbrGroups V) V"
  by (simp add: writeUInt32_Vbr_def stream_writeVbr)

lemma stream_writeUInt64_Vbr:
  "stream (writeUInt64_Vbr V w) = stream w @ vbrLayout (vbrGroups V) V"
  by (simp add: writeUInt64_Vbr_def stream_writeVbr)

lemma readUInt32_Vbr_layout:
  "readUInt32_Vbr (vbrLayout (vbrGroups V) V @ rest) = Some (V, rest)"
  unfolding readUInt32_Vbr_def by (rule readVbr_layout) simp_all

lemma readUInt64_Vbr_layout:
  "readUInt64_Vbr (vbrLayout (vbrGroups V) V @ rest) = Some (V, rest)"
  unfolding readUInt64_Vbr_def by (rule readVbr_layout) simp_all

text \<open>
  Claim C2.  Every 32-bit and every 64-bit unsigned value written by
  \<^verbatim>\<open>writeUInt32_Vbr\<close> (resp. \<^verbatim>\<open>writeUInt64_Vbr\<close>) is read back unchanged by
  \<^verbatim>\<open>readUInt32_Vbr\<close> (resp. \<^verbatim>\<open>readUInt64_Vbr\<close>), whatever follows it in the stream.
  The bits written are 7-bit groups of the value, least significant group and bit first,
  each behind a continuation flag that is set exactly when another group follows; the
  writer needs at most 5 (resp. 10) groups.  The decoder consumes between 1 and 5
  (resp. 10) groups when it succeeds, and fails on a chain whose first 5 (resp. 10)
  flags are all set.
\<close>

theorem C2_vbr_roundtrip:
  fixes V32 :: "32 word" and V64 :: "64 word"
  shows "readUInt32_Vbr (stream (writeUInt32_Vbr V32 newByteStreamWriter) @ rest) = Some (V32, rest)
    \<and> readUInt64_Vbr (stream (writeUInt64_Vbr V64 newByteStreamWriter) @ rest) = Some (V64, rest)
    \<and> stream (writeUInt32_Vbr V32 newByteStreamWriter) = vbrLayout (vbrGroups V32) V32
    \<and> stream (writeUInt64_Vbr V64 newByteStreamWriter) = vbrLayout (vbrGroups V64) V64
    \<and> 1 \<le> vbrGroups V32 \<and> vbrGroups V32 \<le> 5
    \<and> 1 \<le> vbrGroups V64 \<and> vbrGroups V64 \<le> 10
    \<and> (readUInt32_Vbr inp32 = Some (v32, rest32) \<longrightarrow>
          (\<exists>m. 1 \<le> m \<and> m \<le> 5 \<and> inp32 = take (8 * m) inp32 @ rest32
             \<and> length inp32 = 8 * m + length rest32))
    \<and> (readUInt64_Vbr inp64 = Some (v64, rest64) \<longrightarrow>
          (\<exists>m. 1 \<le> m \<and> m \<le> 10 \<and> inp64 = take (8 * m) inp64 @ rest64
             \<and> length inp64 = 8 * m + length rest64))
    \<and> ((\<forall>i<5. 8 * i < length long32 \<and> long32 ! (8 * i)) \<longrightarrow> readUInt32_Vbr long32 = None)
    \<and> ((\<forall>i<10. 8 * i < length long64 \<and> long64 ! (8 * i)) \<longrightarrow> readUInt64_Vbr long64 = None)"
proof -
  have s32: "stream (writeUInt32_Vbr V32 newByteStreamWriter) = vbrLayout (vbrGroups V32) V32"
    by (simp add: stream_writeUInt32_Vbr stream_new)
  have s64: "stream (writeUInt64_Vbr V64 newByteStreamWriter) = vbrLayout (vbrGroups V64) V64"
    by (simp add: stream_writeUInt64_Vbr stream_new)
  have r32: "readUInt32_Vbr (stream (writeUInt32_Vbr V32 newByteStreamWriter) @ rest) = Some (V32, rest)"
    unfolding s32 by (rule readUInt32_Vbr_layout)
  have r64: "readUInt64_Vbr (stream (writeUInt64_Vbr V64 newByteStreamWriter) @ rest) = Some (V64, rest)"
    unfolding s64 by (rule readUInt64_Vbr_layout)
  have g32: "1 \<le> vbrGroups V32 \<and> vbrGroups V32 \<le> 5"
    using vbrGroups_pos[of V32] vbrGroups_32[of V32] by simp
  have g64: "1 \<le> vbrGroups V64 \<and> vbrGroups V64 \<le> 10"
    using vbrGroups_pos[of V64] vbrGroups_64[of V64] by simp
  have a32: "readUInt32_Vbr inp32 = Some (v32, rest32) \<longrightarrow>
          (\<exists>m. 1 \<le> m \<and> m \<le> 5 \<and> inp32 = take (8 * m) inp32 @ rest32
             \<and> length inp32 = 8 * m + length rest32)"
    unfolding readUInt32_Vbr_def by (rule impI) (rule readVbr_accepts)
  have a64: "readUInt64_Vbr inp64 = Some (v64, rest64) \<longrightarrow>
          (\<exists>m. 1 \<le> m \<and> m \<le> 10 \<and> inp64 = take (8 * m) inp64 @ rest64
             \<and> length inp64 = 8 * m + length rest64)"
    unfolding readUInt64_Vbr_def by (rule impI) (rule readVbr_accepts)
  have l32: "(\<forall>i<5. 8 * i < length long32 \<and> long32 ! (8 * i)) \<longrightarrow> readUInt32_Vbr long32 = None"
    unfolding readUInt32_Vbr_def by (rule impI) (rule readVbr_rejects)
  have l64: "(\<forall>i<10. 8 * i < length long64 \<and> long64 ! (8 * i)) \<longrightarrow> readUInt64_Vbr long64 = None"
    unfolding readUInt64_Vbr_def by (rule impI) (rule readVbr_rejects)
  from r32 r64 s32 s64 g32 g64 a32 a64 l32 l64 show ?thesis
    by (intro conjI) simp_all
qed

text \<open>
  The theorem at \<open>V32 = 128\<close> (two groups) and \<open>V64 = 2^63\<close> (ten groups), at the
  streams these values are sent as, and at chains of 40 and 80 set bits.
\<close>

theorem C2_vbr_roundtrip_witness:
  "readUInt32_Vbr (stream (writeUInt32_Vbr 128 newByteStreamWriter) @ [True]) = Some (128, [True])
   \<and> readUInt64_Vbr (stream (writeUInt64_Vbr (2 ^ 63) newByteStreamWriter) @ [True]) = Some (2 ^ 63, [True])
   \<and> vbrGroups (128 :: 32 word) \<le> 5 \<and> vbrGroups (2 ^ 63 :: 64 word) \<le> 10
   \<and> (\<exists>m. 1 \<le> m \<and> m \<le> 5 \<and> length (vbrLayout 2 (128 :: 32 word) @ [True]) = 8 * m + length [True])
   \<and> (\<exists>m. 1 \<le> m \<and> m \<le> 10 \<and> length (vbrLayout 10 (2 ^ 63 :: 64 word) @ [True]) = 8 * m + length [True])
   \<and> readUInt32_Vbr (replicate 40 True) = None
   \<and> readUInt64_Vbr (replicate 80 True) = None"
proof -
  have h32: "readUInt32_Vbr (vbrLayout 2 (128 :: 32 word) @ [True]) = Some (128, [True])"
    by code_simp
  have h64: "readUInt64_Vbr (vbrLayout 10 (2 ^ 63 :: 64 word) @ [True]) = Some (2 ^ 63, [True])"
    by code_simp
  have f32: "\<forall>i<5. 8 * i < length (replicate 40 True) \<and> replicate 40 True ! (8 * i)"
    by simp
  have f64: "\<forall>i<10. 8 * i < length (replicate 80 True) \<and> replicate 80 True ! (8 * i)"
    by simp
  from C2_vbr_roundtrip[where ?V32.0 = 128 and ?V64.0 = "2 ^ 63" and rest = "[True]"
      and ?inp32.0 = "vbrLayout 2 (128 :: 32 word) @ [True]" and ?v32.0 = 128 and ?rest32.0 = "[True]"
      and ?inp64.0 = "vbrLayout 10 (2 ^ 63 :: 64 word) @ [True]" and ?v64.0 = "2 ^ 63" and ?rest64.0 = "[True]"
      and ?long32.0 = "replicate 40 True" and ?long64.0 = "replicate 80 True"]
    h32 h64 f32 f64
  show ?thesis by blast
qed

lemma bits_ucast_up:
  fixes V :: "'a::len word"
  assumes "n \<le> LENGTH('a)" "LENGTH('a) \<le> LENGTH('b::len)"
  shows "map (bit (ucast V :: 'b word)) [0..<n] = map (bit V) [0..<n]"
  using assms by (auto simp add: bit_ucast_iff)

lemma ucast_take_bit_ucast:
  fixes V :: "'a::len word"
  assumes "LENGTH('a) \<le> LENGTH('b::len)"
  shows "ucast (take_bit LENGTH('a) (ucast V :: 'b word)) = V"
  using assms by (intro bit_word_eqI) (auto simp add: bit_simps)

section \<open>Fixed-width signed integers\<close>

text \<open>
  Claim C7.  Signed integers of 8, 16, 32 and 64 bits are written as the raw fixed-width
  field of their two's-complement pattern (8, 16, 32 and 64 bits, lowest bit first).
  The value handed to \<^verbatim>\<open>writeBits32\<close> for the narrow widths is the zero-extended
  pattern (its unsigned value), not the sign-extended one.  \<^verbatim>\<open>readInt8\<close>,
  \<^verbatim>\<open>readInt16\<close>, \<^verbatim>\<open>readInt32\<close> and \<^verbatim>\<open>readInt64\<close> return the pattern that was
  written, hence the same signed value, for every input.
\<close>

theorem C7_signed_fixed_width_roundtrip:
  fixes V8 :: "8 word" and V16 :: "16 word" and V32 :: "32 word" and V64 :: "64 word"
  shows "stream (writeInt8 V8 newByteStreamWriter) = map (bit V8) [0..<8]
    \<and> stream (writeInt16 V16 newByteStreamWriter) = map (bit V16) [0..<16]
    \<and> stream (writeInt32 V32 newByteStreamWriter) = map (bit V32) [0..<32]
    \<and> stream (writeInt64 V64 newByteStreamWriter) = map (bit V64) [0..<64]
    \<and> writeInt8 V8 w = writeBits32 (word_of_nat (unat V8)) 8 w
    \<and> writeInt16 V16 w = writeBits32 (word_of_nat (unat V16)) 16 w
    \<and> readInt8 (stream (writeInt8 V8 newByteStreamWriter) @ rest) = Some (V8, rest)
    \<and> readInt16 (stream (writeInt16 V16 newByteStreamWriter) @ rest) = Some (V16, rest)
    \<and> readInt32 (stream (writeInt32 V32 newByteStreamWriter) @ rest) = Some (V32, rest)
    \<and> readInt64 (stream (writeInt64 V64 newByteStreamWriter) @ rest) = Some (V64, rest)
    \<and> map_option (sint \<circ> fst) (readInt8 (stream (writeInt8 V8 newByteStreamWriter) @ rest)) = Some (sint V8)
    \<and> map_option (sint \<circ> fst) (readInt16 (stream (writeInt16 V16 newByteStreamWriter) @ rest)) = Some (sint V16)
    \<and> map_option (sint \<circ> fst) (readInt32 (stream (writeInt32 V32 newByteStreamWriter) @ rest)) = Some (sint V32)
    \<and> map_option (sint \<circ> fst) (readInt64 (stream (writeInt64 V64 newByteStreamWriter) @ rest)) = Some (sint V64)"
proof -
  have s8: "stream (writeInt8 V8 newByteStreamWriter) = map (bit V8) [0..<8]"
    unfolding writeInt8_def stream_writeBits32 stream_new by (simp add: bits_ucast_up)
  have s16: "stream (writeInt16 V16 newByteStreamWriter) = map (bit V16) [0..<16]"
    unfolding writeInt16_def stream_writeBits32 stream_new by (simp add: bits_ucast_up)
  have s32: "stream (writeInt32 V32 newByteStreamWriter) = map (bit V32) [0..<32]"
    unfolding writeInt32_def stream_writeBits32 stream_new by simp
  have s64: "stream (writeInt64 V64 newByteStreamWriter) = map (bit V64) [0..<64]"
    unfolding writeInt64_def stream_writeBits64 stream_new by simp
  have z8: "writeInt8 V8 w = writeBits32 (word_of_nat (unat V8)) 8 w"
    by (simp add: writeInt8_def)
  have z16: "writeInt16 V16 w = writeBits32 (word_of_nat (unat V16)) 16 w"
    by (simp add: writeInt16_def)
  have "readBits32 8 (stream (writeInt8 V8 newByteStreamWriter) @ rest)
      = Some (take_bit 8 (ucast V8), rest)"
    unfolding writeInt8_def stream_writeBits32 stream_new by (simp only: append_Nil readBits32_bits)
  then have r8: "readInt8 (stream (writeInt8 V8 newByteStreamWriter) @ rest) = Some (V8, rest)"
    unfolding readInt8_def using ucast_take_bit_ucast[of V8, where 'b = 32] by simp
  have "readBits32 16 (stream (writeInt16 V16 newByteStreamWriter) @ rest)
      = Some (take_bit 16 (ucast V16), rest)"
    unfolding writeInt16_def stream_writeBits32 stream_new by (simp only: append_Nil readBits32_bits)
  then have r16: "readInt16 (stream (writeInt16 V16 newByteStreamWriter) @ rest) = Some (V16, rest)"
    unfolding readInt16_def using ucast_take_bit_ucast[of V16, where 'b = 32] by simp
  have r32: "readInt32 (stream (writeInt32 V32 newByteStreamWriter) @ rest) = Some (V32, rest)"
    unfolding s32 readInt32_def by (simp add: readBits32_bits take_bit_word_eq_self)
  have r64: "readInt64 (stream (writeInt64 V64 newByteStreamWriter) @ rest) = Some (V64, rest)"
    unfolding s64 readInt64_def by (simp add: readBits64_bits take_bit_word_eq_self)
  show ?thesis
    unfolding r8 r16 r32 r64 using s8 s16 s32 s64 z8 z16 by simp
qed

lemma length_vbrLayout: "length (vbrLayout n V) = 8 * n"
  unfolding vbrLayout_def
  by (induction n) (simp_all add: length_concat comp_def)

lemma vbrGroups_ucast16: "vbrGroups (ucast (V :: 16 word) :: 32 word) \<le> 3"
proof (rule vbrGroups_le)
  show "drop_bit (7 * 3) (ucast V :: 32 word) = 0"
    by (rule bit_word_eqI) (auto simp add: bit_simps dest: bit_imp_le_length)
qed simp

lemma ucast_ucast_16_32: "ucast (ucast (V :: 16 word) :: 32 word) = V"
  by (rule bit_word_eqI) (auto simp add: bit_simps)

section \<open>Unsigned 16-bit and 8-bit integers\<close>

text \<open>
  Claim C10.  \<^verbatim>\<open>writeUInt16\<close> hands the zero-extended value to the 32-bit VBR writer:
  the bits written are the VBR layout of the value, of 1 to 3 groups (8 bits for 0,
  24 bits for 65535), never a raw 16-bit field.  \<^verbatim>\<open>readUInt16\<close> truncates what the
  32-bit VBR reader returns, and the composition is the identity on every 16-bit value.
  \<^verbatim>\<open>writeUInt8\<close> and \<^verbatim>\<open>readUInt8\<close> use a raw field of exactly 8 bits.
\<close>

theorem C10_uint16_via_vbr:
  fixes V16 :: "16 word" and V8 :: "8 word"
  shows "writeUInt16 V16 w = writeUInt32_Vbr (word_of_nat (unat V16)) w
    \<and> stream (writeUInt16 V16 newByteStreamWriter)
        = vbrLayout (vbrGroups (ucast V16 :: 32 word)) (ucast V16 :: 32 word)
    \<and> length (stream (writeUInt16 V16 newByteStreamWriter)) = 8 * vbrGroups (ucast V16 :: 32 word)
    \<and> 1 \<le> vbrGroups (ucast V16 :: 32 word) \<and> vbrGroups (ucast V16 :: 32 word) \<le> 3
    \<and> length (stream (writeUInt16 0 newByteStreamWriter)) = 8
    \<and> length (stream (writeUInt16 (- 1) newByteStreamWriter)) = 24
    \<and> readUInt16 (stream (writeUInt16 V16 newByteStreamWriter) @ rest) = Some (V16, rest)
    \<and> stream (writeUInt8 V8 newByteStreamWriter) = map (bit V8) [0..<8]
    \<and> length (stream (writeUInt8 V8 newByteStreamWriter)) = 8
    \<and> readUInt8 (stream (writeUInt8 V8 newByteStreamWriter) @ rest) = Some (V8, rest)"
proof -
  have d: "writeUInt16 V16 w = writeUInt32_Vbr (word_of_nat (unat V16)) w"
    by (simp add: writeUInt16_def)
  have s16: "stream (writeUInt16 V16 newByteStreamWriter)
        = vbrLayout (vbrGroups (ucast V16 :: 32 word)) (ucast V16 :: 32 word)"
    by (simp add: writeUInt16_def stream_writeUInt32_Vbr stream_new)
  have l16: "length (stream (writeUInt16 V16 newByteStreamWriter)) = 8 * vbrGroups (ucast V16 :: 32 word)"
    unfolding s16 by (rule length_vbrLayout)
  have g16: "1 \<le> vbrGroups (ucast V16 :: 32 word) \<and> vbrGroups (ucast V16 :: 32 word) \<le> 3"
    using vbrGroups_pos[of "ucast V16 :: 32 word"] vbrGroups_ucast16[of V16] by simp
  have e0: "length (stream (writeUInt16 0 newByteStreamWriter)) = 8"
    by code_simp
  have e1: "length (stream (writeUInt16 (- 1) newByteStreamWriter)) = 24"
    by code_simp
  have r16: "readUInt16 (stream (writeUInt16 V16 newByteStreamWriter) @ rest) = Some (V16, rest)"
    unfolding s16 readUInt16_def readUInt32_Vbr_layout by (simp add: ucast_ucast_16_32)
  have s8: "stream (writeUInt8 V8 newByteStreamWriter) = map (bit V8) [0..<8]"
    unfolding writeUInt8_def stream_writeBits32 stream_new by (simp add: bits_ucast_up)
  have l8: "length (stream (writeUInt8 V8 newByteStreamWriter)) = 8"
    unfolding s8 by simp
  have "readBits32 8 (stream (writeUInt8 V8 newByteStreamWriter) @ rest)
      = Some (take_bit 8 (ucast V8), rest)"
    unfolding writeUInt8_def stream_writeBits32 stream_new by (simp only: append_Nil readBits32_bits)
  then have r8: "readUInt8 (stream (writeUInt8 V8 newByteStreamWriter) @ rest) = Some (V8, rest)"
    unfolding readUInt8_def using ucast_take_bit_ucast[of V8, where 'b = 32] by simp
  from d s16 l16 g16 e0 e1 r16 s8 l8 r8 show ?thesis
    by (intro conjI) simp_all
qed

section \<open>The field-width table\<close>

lemma stream_writeFlag:
  "stream (writeFlag T F w) = stream w @ map (bit F) [0..<getBitSize T]"
  by (simp add: writeFlag_def stream_writeBits32)

lemma readFlag_bits:
  "readFlag T (map (bit F) [0..<getBitSize T] @ rest) = Some (take_bit (getBitSize T) F, rest)"
  by (simp add: readFlag_def readBits32_bits)

text \<open>
  Claim C8.  The width table has the canonical entries (pseudo-opcode and IR opcode 6,
  annotation kind 8, unary, binary and cast opcode 6, variable kind 2, calling
  convention 4, apply kind 2, alloc kind 2).  \<^verbatim>\<open>writeFlag\<close> writes exactly the table's
  number of bits for the field's kind and nothing else, \<^verbatim>\<open>readFlag\<close> for the same kind
  consumes exactly these bits and returns the value's low bits, so no width travels in
  the stream.  A boolean is one bit.
\<close>

theorem C8_field_width_table:
  shows "getBitSize F_PseudoOpcode = 6 \<and> getBitSize F_TIL_Opcode = 6
    \<and> getBitSize F_TIL_AnnKind = 8
    \<and> getBitSize F_TIL_UnaryOpcode = 6 \<and> getBitSize F_TIL_BinaryOpcode = 6
    \<and> getBitSize F_TIL_CastOpcode = 6
    \<and> getBitSize F_VariableKind = 2 \<and> getBitSize F_CallingConvention = 4
    \<and> getBitSize F_ApplyKind = 2 \<and> getBitSize F_AllocKind = 2
    \<and> stream (writeFlag T Flag newByteStreamWriter) = map (bit Flag) [0..<getBitSize T]
    \<and> length (stream (writeFlag T Flag newByteStreamWriter)) = getBitSize T
    \<and> readFlag T (stream (writeFlag T Flag newByteStreamWriter) @ rest)
        = Some (take_bit (getBitSize T) Flag, rest)
    \<and> stream (writeBool B newByteStreamWriter) = [B]
    \<and> readBool (stream (writeBool B newByteStreamWriter) @ rest) = Some (B, rest)"
proof -
  have s: "stream (writeFlag T Flag newByteStreamWriter) = map (bit Flag) [0..<getBitSize T]"
    by (simp add: stream_writeFlag stream_new)
  have r: "readFlag T (stream (writeFlag T Flag newByteStreamWriter) @ rest)
        = Some (take_bit (getBitSize T) Flag, rest)"
    unfolding s by (rule readFlag_bits)
  have b: "stream (writeBool B newByteStreamWriter) = [B]"
    by (simp add: writeBool_def stream_writeBits32 stream_new bit_of_bool_iff)
  have rb: "readBool (stream (writeBool B newByteStreamWriter) @ rest) = Some (B, rest)"
    unfolding b by (simp add: readBool_def readBits32_def readBits_def)
  show ?thesis
    unfolding r rb using s b by (simp add: getBitSize_def)
qed

section \<open>The shared 6-bit code space of pseudo-opcodes and IR opcodes\<close>


lemma readPseudoOpcode_writePseudoOpcode:
  "readPseudoOpcode (stream (writePseudoOpcode P newByteStreamWriter) @ rest) = Some (take_bit 6 P, rest)"
proof -
  have "ucast (take_bit 6 (ucast P :: 32 word)) = take_bit 6 P"
    by (rule bit_word_eqI) (auto simp add: bit_simps)
  then show ?thesis
    unfolding readPseudoOpcode_def writePseudoOpcode_def stream_writeFlag stream_new
    by (simp only: append_Nil readFlag_bits) (simp add: getBitSize_def)
qed

lemma unat_PSOP_Last: "unat PSOP_Last = 9"
  by (simp add: PSOP_Last_def)

lemma unat_ucast_small:
  fixes x :: "'a::len word"
  assumes "unat x < 2 ^ LENGTH('b::len)"
  shows "unat (ucast x :: 'b word) = unat x"
  using assms by (simp add: unsigned_ucast_eq take_bit_nat_eq_self)

lemma take_bit_word_small:
  fixes x :: "'a::len word"
  assumes "unat x < 2 ^ n"
  shows "take_bit n x = x"
  using assms by (simp add: word_unat_eq_iff unsigned_take_bit_eq take_bit_nat_eq_self)

lemma opcode_code:
  fixes Op :: "32 word"
  assumes "unat Op + unat PSOP_Last < 2 ^ getBitSize F_PseudoOpcode"
  shows "ucast ((ucast PSOP_Last :: 32 word) + Op) = PSOP_Last + (ucast Op :: 8 word)"
    and "unat (PSOP_Last + (ucast Op :: 8 word)) = unat Op + 9"
    and "getOpcode (PSOP_Last + (ucast Op :: 8 word)) = Op"
proof -
  have lt: "unat Op < 55"
    using assms by (simp add: unat_PSOP_Last getBitSize_def)
  have u8: "unat (ucast Op :: 8 word) = unat Op"
    using lt by (intro unat_ucast_small) simp
  have l32: "unat (ucast PSOP_Last :: 32 word) = 9"
    by (simp add: PSOP_Last_def)
  have "unat (PSOP_Last :: 8 word) + unat (ucast Op :: 8 word) < 2 ^ LENGTH(8)"
    using lt by (simp add: u8 unat_PSOP_Last)
  then have "unat (PSOP_Last + (ucast Op :: 8 word)) = unat PSOP_Last + unat (ucast Op :: 8 word)"
    by (simp only: unat_add_lem)
  then show c8: "unat (PSOP_Last + (ucast Op :: 8 word)) = unat Op + 9"
    by (simp add: u8 unat_PSOP_Last)
  have "unat (ucast PSOP_Last :: 32 word) + unat Op < 2 ^ LENGTH(32)"
    using lt by (simp add: l32)
  then have "unat ((ucast PSOP_Last :: 32 word) + Op) = unat (ucast PSOP_Last :: 32 word) + unat Op"
    by (simp only: unat_add_lem)
  then have c32: "unat ((ucast PSOP_Last :: 32 word) + Op) = unat Op + 9"
    by (simp add: l32)
  have "unat (ucast ((ucast PSOP_Last :: 32 word) + Op) :: 8 word) = unat Op + 9"
    using lt by (subst unat_ucast_small) (simp_all add: c32)
  then show "ucast ((ucast PSOP_Last :: 32 word) + Op) = PSOP_Last + (ucast Op :: 8 word)"
    by (simp add: word_unat_eq_iff c8)
  have w: "unat (ucast (PSOP_Last + (ucast Op :: 8 word)) :: 32 word) = unat Op + 9"
    using lt by (subst unat_ucast_small) (simp_all add: c8)
  then have "(ucast PSOP_Last :: 32 word) \<le> ucast (PSOP_Last + (ucast Op :: 8 word))"
    by (simp add: word_le_nat_alt l32)
  then have "unat (ucast (PSOP_Last + (ucast Op :: 8 word)) - (ucast PSOP_Last :: 32 word)) = unat Op"
    by (simp add: unat_sub w l32)
  then show "getOpcode (PSOP_Last + (ucast Op :: 8 word)) = Op"
    by (simp add: getOpcode_def word_unat_eq_iff)
qed

text \<open>
  Claim C3.  For every IR opcode \<open>Op\<close> that fits the 6-bit field together with the
  pseudo-opcodes (\<open>Op + PSOP_Last < 2^6\<close>): \<^verbatim>\<open>writeOpcode\<close> emits the 6-bit code
  \<open>PSOP_Last + Op\<close>, the reader reads that code back, the code is \<open>\<ge> PSOP_Last\<close> and
  is dispatched as the real opcode \<open>Op\<close>, and \<^verbatim>\<open>getOpcode\<close> inverts the encoding.  A
  code is dispatched as a real opcode exactly when it is \<open>\<ge> PSOP_Last\<close>; a
  pseudo-opcode below \<open>PSOP_Last\<close> is read back as itself and dispatched as a
  pseudo-opcode.
\<close>

theorem C3_opcode_code_space:
  fixes Op :: "32 word" and P :: "8 word"
  shows "unat Op + unat PSOP_Last < 2 ^ getBitSize F_PseudoOpcode \<Longrightarrow>
      length (stream (writeOpcode Op newByteStreamWriter)) = 6
    \<and> readPseudoOpcode (stream (writeOpcode Op newByteStreamWriter) @ rest)
        = Some (PSOP_Last + ucast Op, rest)
    \<and> PSOP_Last \<le> PSOP_Last + ucast Op
    \<and> getOpcode (PSOP_Last + ucast Op) = Op
    \<and> dispatch (PSOP_Last + ucast Op) = Real Op
    \<and> ((\<exists>op. dispatch P = Real op) \<longleftrightarrow> PSOP_Last \<le> P)
    \<and> (P < PSOP_Last \<longrightarrow>
          readPseudoOpcode (stream (writePseudoOpcode P newByteStreamWriter) @ rest) = Some (P, rest)
        \<and> dispatch P = Pseudo P)"
proof -
  assume a: "unat Op + unat PSOP_Last < 2 ^ getBitSize F_PseudoOpcode"
  let ?c = "PSOP_Last + (ucast Op :: 8 word)"
  note code = opcode_code[OF a]
  have lt: "unat ?c < 64"
    using a by (simp add: code(2) unat_PSOP_Last getBitSize_def)
  then have tb: "take_bit 6 ?c = ?c"
    by (intro take_bit_word_small) simp
  have len: "length (stream (writeOpcode Op newByteStreamWriter)) = 6"
    by (simp add: writeOpcode_def writePseudoOpcode_def stream_writeFlag stream_new getBitSize_def)
  have rd: "readPseudoOpcode (stream (writeOpcode Op newByteStreamWriter) @ rest) = Some (?c, rest)"
    unfolding writeOpcode_def code(1) readPseudoOpcode_writePseudoOpcode tb by simp
  have ge: "PSOP_Last \<le> ?c"
    by (simp add: word_le_nat_alt code(2) unat_PSOP_Last)
  have disp: "dispatch ?c = Real Op"
    using ge by (simp add: dispatch_def code(3))
  have cls: "(\<exists>op. dispatch P = Real op) \<longleftrightarrow> PSOP_Last \<le> P"
    by (simp add: dispatch_def)
  have ps: "P < PSOP_Last \<longrightarrow>
          readPseudoOpcode (stream (writePseudoOpcode P newByteStreamWriter) @ rest) = Some (P, rest)
        \<and> dispatch P = Pseudo P"
  proof
    assume p: "P < PSOP_Last"
    then have "unat P < 64"
      by (simp add: word_less_nat_alt unat_PSOP_Last)
    then have "take_bit 6 P = P"
      by (intro take_bit_word_small) simp
    then show "readPseudoOpcode (stream (writePseudoOpcode P newByteStreamWriter) @ rest) = Some (P, rest)
        \<and> dispatch P = Pseudo P"
      using p by (simp add: readPseudoOpcode_writePseudoOpcode dispatch_def)
  qed
  from len rd ge code(3) disp cls ps show ?thesis
    by (intro conjI)
qed

text \<open>
  The theorem at opcode 10, whose code is 19, and at the pseudo-opcode
  \<open>PSOP_Annotation\<close>.
\<close>

theorem C3_opcode_code_space_witness:
  "unat (10 :: 32 word) + unat PSOP_Last < 2 ^ getBitSize F_PseudoOpcode
   \<and> readPseudoOpcode (stream (writeOpcode 10 newByteStreamWriter) @ [True]) = Some (19, [True])
   \<and> getOpcode 19 = 10
   \<and> dispatch 19 = Real 10
   \<and> PSOP_Annotation < PSOP_Last
   \<and> readPseudoOpcode (stream (writePseudoOpcode PSOP_Annotation newByteStreamWriter) @ [True])
        = Some (PSOP_Annotation, [True])
   \<and> dispatch PSOP_Annotation = Pseudo PSOP_Annotation"
proof -
  have h: "unat (10 :: 32 word) + unat PSOP_Last < 2 ^ getBitSize F_PseudoOpcode"
    by (simp add: PSOP_Last_def getBitSize_def)
  have p: "PSOP_Annotation < PSOP_Last"
    by (simp add: PSOP_Annotation_def PSOP_Last_def)
  have e: "PSOP_Last + ucast (10 :: 32 word) = (19 :: 8 word)"
    by (simp add: PSOP_Last_def)
  from C3_opcode_code_space[OF h, where P = PSOP_Annotation and rest = "[True]"] h p
  show ?thesis
    unfolding e by blast
qed

section \<open>Literals (BytecodeWriter::reduceLiteralT)\<close>

text \<open>
  \<^verbatim>\<open>BaseType\<close> is declared in BaseTypes.h; the writer reads its \<^verbatim>\<open>asUInt8()\<close> byte and
  its \<^verbatim>\<open>VectSize\<close> (lines 225-229).
\<close>

record BaseType =
  asUInt8 :: "8 word"
  VectSize :: "8 word"

definition writeBaseType :: "BaseType \<Rightarrow> ByteStreamWriter \<Rightarrow> ByteStreamWriter" where
  "writeBaseType Bt w =
     (let w1 = writeUInt8 (asUInt8 Bt) w
      in if VectSize Bt \<ge> 1 then writeUInt8 (VectSize Bt) w1 else w1)"

text \<open>
  Modelled from the spec: \<^verbatim>\<open>writeFloat\<close>, \<^verbatim>\<open>writeDouble\<close>, \<^verbatim>\<open>writeBytes\<close> and
  \<^verbatim>\<open>writeString\<close> (bodies in Bytecode.cpp).  "Float/double: reinterpret the IEEE-754
  bits as uint32/uint64 and emit via the fixed-width path"; a float is its 32-bit
  pattern here.  "String: a length prefix (VBR 32-bit) followed by that many raw
  bytes; no terminator is written."
\<close>

definition writeFloat :: "32 word \<Rightarrow> ByteStreamWriter \<Rightarrow> ByteStreamWriter" where
  "writeFloat f w = writeBits32 f 32 w"

definition writeDouble :: "64 word \<Rightarrow> ByteStreamWriter \<Rightarrow> ByteStreamWriter" where
  "writeDouble d w = writeBits64 d 64 w"

definition writeBytes :: "8 word list \<Rightarrow> ByteStreamWriter \<Rightarrow> ByteStreamWriter" where
  "writeBytes Data w = fold (\<lambda>b. writeBits32 (ucast b) 8) Data w"

definition writeString :: "8 word list \<Rightarrow> ByteStreamWriter \<Rightarrow> ByteStreamWriter" where
  "writeString S w = writeBytes S (writeUInt32_Vbr (word_of_nat (length S)) w)"

text \<open>
  The value of a \<^verbatim>\<open>LiteralT<Ty>\<close>, one constructor per overload of \<^verbatim>\<open>writeLitVal\<close>
  (lines 231-250).  A pointer is its address; \<^verbatim>\<open>nullptr\<close> is address 0.
\<close>

datatype LitVal =
    LV_bool bool
  | LV_uint8 "8 word"
  | LV_uint16 "16 word"
  | LV_uint32 "32 word"
  | LV_uint64 "64 word"
  | LV_int8 "8 word"
  | LV_int16 "16 word"
  | LV_int32 "32 word"
  | LV_int64 "64 word"
  | LV_float "32 word"
  | LV_double "64 word"
  | LV_string "8 word list"
  | LV_pointer "64 word"

text \<open>
  A failed \<^verbatim>\<open>assert\<close> aborts the program; \<open>AssertionFailed\<close> keeps the message and the
  state of the writer at the abort.
\<close>

datatype 'a Outcome = Done 'a | AssertionFailed string 'a

fun writerOf :: "'a Outcome \<Rightarrow> 'a" where
  "writerOf (Done w) = w"
| "writerOf (AssertionFailed msg w) = w"

fun writeLitVal :: "LitVal \<Rightarrow> ByteStreamWriter \<Rightarrow> ByteStreamWriter Outcome" where
  "writeLitVal (LV_bool V) w = Done (writeBool V w)"
| "writeLitVal (LV_uint8 V) w = Done (writeUInt8 V w)"
| "writeLitVal (LV_uint16 V) w = Done (writeUInt16 V w)"
| "writeLitVal (LV_uint32 V) w = Done (writeUInt32 V w)"
| "writeLitVal (LV_uint64 V) w = Done (writeUInt64 V w)"
| "writeLitVal (LV_int8 V) w = Done (writeInt8 V w)"
| "writeLitVal (LV_int16 V) w = Done (writeInt16 V w)"
| "writeLitVal (LV_int32 V) w = Done (writeInt32 V w)"
| "writeLitVal (LV_int64 V) w = Done (writeInt64 V w)"
| "writeLitVal (LV_float V) w = Done (writeFloat V w)"
| "writeLitVal (LV_double V) w = Done (writeDouble V w)"
| "writeLitVal (LV_string S) w = Done (writeString S w)"
| "writeLitVal (LV_pointer P) w =
     (if P = 0 then Done w
      else AssertionFailed ''Cannot serialize non-null pointer literal.'' w)"

text \<open>
  \<^verbatim>\<open>reduceLiteralT\<close> (lines 276-281).  \<open>COP_Literal\<close> is an enumerator of \<^verbatim>\<open>TIL_Opcode\<close>
  (TIL.h); its value is a parameter.
\<close>

record Literal =
  baseType :: BaseType
  litValue :: LitVal

definition reduceLiteralT :: "32 word \<Rightarrow> Literal \<Rightarrow> ByteStreamWriter \<Rightarrow> ByteStreamWriter Outcome" where
  "reduceLiteralT COP_Literal E w =
     writeLitVal (litValue E) (writeBaseType (baseType E) (writeOpcode COP_Literal w))"

text \<open>\<^verbatim>\<open>readLitVal(void**)\<close>, line 384: nothing is read.\<close>

definition readLitVal_pointer :: "bitstream \<Rightarrow> (64 word \<times> bitstream) option" where
  "readLitVal_pointer inp = Some (0, inp)"

lemma stream_writeUInt8: "stream (writeUInt8 V w) = stream w @ map (bit V) [0..<8]"
  unfolding writeUInt8_def stream_writeBits32 by (simp add: bits_ucast_up)

lemma stream_writePseudoOpcode:
  "stream (writePseudoOpcode P w) = stream w @ map (bit P) [0..<6]"
  unfolding writePseudoOpcode_def stream_writeFlag by (simp add: getBitSize_def bits_ucast_up)

lemma stream_writeBaseType:
  "stream (writeBaseType Bt w) =
     stream w @ map (bit (asUInt8 Bt)) [0..<8]
       @ (if VectSize Bt \<ge> 1 then map (bit (VectSize Bt)) [0..<8] else [])"
  by (simp add: writeBaseType_def Let_def stream_writeUInt8)

lemma stream_writeOpcode:
  "stream (writeOpcode Op w) = stream w @ map (bit ((ucast PSOP_Last :: 32 word) + Op)) [0..<6]"
  unfolding writeOpcode_def stream_writePseudoOpcode by (simp add: bit_ucast_iff)

text \<open>
  Claim C6, as stated, at a pointer literal with address 1, opcode code 10 and base
  type byte \<open>0x66\<close>: when the assertion fails, the writer's buffer already holds the 6
  bits of the opcode and the 8 bits of the base type.
\<close>

theorem C6_counterexample:
  "reduceLiteralT 10 \<lparr>baseType = \<lparr>asUInt8 = 0x66, VectSize = 0\<rparr>, litValue = LV_pointer 1\<rparr>
       newByteStreamWriter
     = AssertionFailed ''Cannot serialize non-null pointer literal.''
         \<lparr>Atoms = [],
          Buffer = [True, True, False, False, True, False,
                    False, True, True, False, False, True, True, False]\<rparr>
   \<and> Buffer (writerOf (reduceLiteralT 10
         \<lparr>baseType = \<lparr>asUInt8 = 0x66, VectSize = 0\<rparr>, litValue = LV_pointer 1\<rparr>
         newByteStreamWriter)) \<noteq> []"
  by code_simp

text \<open>
  Claim C6, amended.  Serializing a pointer literal whose value is non-null fails the
  assertion of \<^verbatim>\<open>writeLitVal\<close>; at that point the writer holds the literal's opcode and
  base type, written by \<^verbatim>\<open>reduceLiteralT\<close> before the value, and no bit of the value.
  A null pointer literal is serialized as the same opcode and base type with no value
  payload, and the reader takes a pointer value from no bits (it returns null), so no
  non-null pointer is ever encoded.
\<close>

theorem C6_pointer_literal:
  assumes "P \<noteq> 0" "litValue E = LV_pointer P"
  shows "reduceLiteralT COP_Literal E w
           = AssertionFailed ''Cannot serialize non-null pointer literal.''
               (writeBaseType (baseType E) (writeOpcode COP_Literal w))
    \<and> reduceLiteralT COP_Literal (E\<lparr>litValue := LV_pointer 0\<rparr>) w
           = Done (writeBaseType (baseType E) (writeOpcode COP_Literal w))
    \<and> stream (writerOf (reduceLiteralT COP_Literal E newByteStreamWriter))
           = map (bit ((ucast PSOP_Last :: 32 word) + COP_Literal)) [0..<6]
             @ map (bit (asUInt8 (baseType E))) [0..<8]
             @ (if VectSize (baseType E) \<ge> 1 then map (bit (VectSize (baseType E))) [0..<8] else [])
    \<and> stream (writerOf (reduceLiteralT COP_Literal (E\<lparr>litValue := LV_pointer 0\<rparr>) newByteStreamWriter))
           = stream (writerOf (reduceLiteralT COP_Literal E newByteStreamWriter))
    \<and> readLitVal_pointer inp = Some (0, inp)"
  using assms
  by (simp add: reduceLiteralT_def readLitVal_pointer_def stream_writeBaseType
      stream_writeOpcode stream_new)

text \<open>The theorem at address 1, opcode code 10 and base type byte \<open>0x66\<close>.\<close>

theorem C6_pointer_literal_witness:
  "(1 :: 64 word) \<noteq> 0
   \<and> reduceLiteralT 10 \<lparr>baseType = \<lparr>asUInt8 = 0x66, VectSize = 0\<rparr>, litValue = LV_pointer 1\<rparr>
         newByteStreamWriter
       = AssertionFailed ''Cannot serialize non-null pointer literal.''
           (writeBaseType \<lparr>asUInt8 = 0x66, VectSize = 0\<rparr> (writeOpcode 10 newByteStreamWriter))
   \<and> reduceLiteralT 10 \<lparr>baseType = \<lparr>asUInt8 = 0x66, VectSize = 0\<rparr>, litValue = LV_pointer 0\<rparr>
         newByteStreamWriter
       = Done (writeBaseType \<lparr>asUInt8 = 0x66, VectSize = 0\<rparr> (writeOpcode 10 newByteStreamWriter))"
  using C6_pointer_literal[where P = 1 and COP_Literal = 10 and w = newByteStreamWriter
      and E = "\<lparr>baseType = \<lparr>asUInt8 = 0x66, VectSize = 0\<rparr>, litValue = LV_pointer 1\<rparr>"]
  by simp

section \<open>Expressions and annotations\<close>

text \<open>
  The annotation classes of AnnotationImpl.h pass the enumerators \<^verbatim>\<open>ANNKIND_InstrNameAnnot\<close>,
  \<^verbatim>\<open>ANNKIND_SourceLocAnnot\<close>, \<^verbatim>\<open>ANNKIND_PreconditionAnnot\<close> and
  \<^verbatim>\<open>ANNKIND_TestTripletAnnot\<close> of \<^verbatim>\<open>TIL_AnnKind\<close> to their base class.  The enumeration
  is declared in Annotation.h; the numeric value of each enumerator is the parameter
  \<open>K\<close> of the functions below.
\<close>

datatype TIL_AnnKind =
    ANNKIND_InstrNameAnnot
  | ANNKIND_SourceLocAnnot
  | ANNKIND_PreconditionAnnot
  | ANNKIND_TestTripletAnnot

text \<open>
  The IR node classes are declared in TIL.h.  A node is represented by what the codec
  reads from it and writes to it: its opcode, its scalar fields as the bits that its
  \<^verbatim>\<open>reduce\<close> method writes after the opcode, its child expressions in traversal order,
  and its annotation list (\<^verbatim>\<open>annotations()\<close>, linked by \<^verbatim>\<open>next()\<close>).  The annotations are
  the four classes of AnnotationImpl.h with the members they declare: \<^verbatim>\<open>Name\<close>,
  \<^verbatim>\<open>Position\<close>, \<^verbatim>\<open>Condition\<close>, and \<^verbatim>\<open>ExpA\<close>, \<^verbatim>\<open>ExpB\<close>, \<^verbatim>\<open>ExpC\<close>.
\<close>

datatype SExpr = SExpr (opcode: "32 word") (fields: bitstream) (args: "SExpr list")
    (annotations: "Annotation list")
and Annotation =
    InstrNameAnnot "8 word list"
  | SourceLocAnnot "64 word"
  | PreconditionAnnot SExpr
  | TestTripletAnnot SExpr SExpr SExpr

fun kind :: "Annotation \<Rightarrow> TIL_AnnKind" where
  "kind (InstrNameAnnot N) = ANNKIND_InstrNameAnnot"
| "kind (SourceLocAnnot P) = ANNKIND_SourceLocAnnot"
| "kind (PreconditionAnnot P) = ANNKIND_PreconditionAnnot"
| "kind (TestTripletAnnot A B C) = ANNKIND_TestTripletAnnot"

section \<open>The serializing traversal (BytecodeWriter)\<close>

text \<open>
  Modelled from the spec: the writes of a node's \<^verbatim>\<open>reduce\<close> method after the opcode (bodies
  in Bytecode.cpp), "any scalar fields specific to that node".  The fields of a node are
  kept as the bits written for them.
\<close>

definition writeFieldBits :: "bitstream \<Rightarrow> ByteStreamWriter \<Rightarrow> ByteStreamWriter" where
  "writeFieldBits bs w = w\<lparr>Buffer := Buffer w @ bs\<rparr>"

text \<open>
  Modelled from the spec: the \<^verbatim>\<open>serialize\<close> methods of the annotation classes (declared in
  AnnotationImpl.h, bodies in AnnotationImpl.cpp), the "annotation-specific payload":
  the scalar member of the class, written with the stream writer's method for its type.
  Sub-expressions are not part of the payload; \<^verbatim>\<open>traverse\<close> visits them first.
\<close>

fun serialize :: "Annotation \<Rightarrow> ByteStreamWriter \<Rightarrow> ByteStreamWriter" where
  "serialize (InstrNameAnnot Name) w = writeString Name w"
| "serialize (SourceLocAnnot Position) w = writeUInt64 Position w"
| "serialize (PreconditionAnnot P) w = w"
| "serialize (TestTripletAnnot A B C) w = w"

text \<open>\<^verbatim>\<open>reduceAnnotationT\<close>, Bytecode.h lines 269-274.\<close>

definition reduceAnnotationT ::
  "(TIL_AnnKind \<Rightarrow> 8 word) \<Rightarrow> Annotation \<Rightarrow> ByteStreamWriter \<Rightarrow> ByteStreamWriter" where
  "reduceAnnotationT K A w =
     serialize A (writeFlag F_TIL_AnnKind (ucast (K (kind A))) (writePseudoOpcode PSOP_Annotation w))"

text \<open>
  \<^verbatim>\<open>BytecodeWriter::traverse\<close>, lines 253-264: the node, \<^verbatim>\<open>endAtom\<close>, then every annotation
  of the list followed by \<^verbatim>\<open>endAtom\<close>.  \<^verbatim>\<open>traverseAnnotation\<close> is the \<^verbatim>\<open>traverse\<close> method
  of the annotation's class (AnnotationImpl.h): \<^verbatim>\<open>traverseArg\<close> on each sub-expression in
  order, then \<^verbatim>\<open>reduceAnnotationT\<close>.  The \<^verbatim>\<open>TraversalKind\<close> argument of the source plays
  no part in the writer and is left out; \<open>K\<close> is the table of annotation kind values.

  Modelled from the spec: \<^verbatim>\<open>SuperTv::traverse\<close> (TILTraverse.h), the innermost part of the
  first equation.  "Recursively traverses each child argument", then "invokes the
  node-kind-specific reduce method, which writes the opcode, any scalar fields specific
  to that node, no child payload".
\<close>

fun traverse :: "(TIL_AnnKind \<Rightarrow> 8 word) \<Rightarrow> SExpr \<Rightarrow> ByteStreamWriter \<Rightarrow> ByteStreamWriter"
and traverseAnnotation ::
  "(TIL_AnnKind \<Rightarrow> 8 word) \<Rightarrow> Annotation \<Rightarrow> ByteStreamWriter \<Rightarrow> ByteStreamWriter" where
  "traverse K (SExpr Op Fs As Anns) w =
     fold (\<lambda>A w'. endAtom (traverseAnnotation K A w')) Anns
       (endAtom (writeFieldBits Fs (writeOpcode Op (fold (traverse K) As w))))"
| "traverseAnnotation K (InstrNameAnnot Name) w = reduceAnnotationT K (InstrNameAnnot Name) w"
| "traverseAnnotation K (SourceLocAnnot Position) w = reduceAnnotationT K (SourceLocAnnot Position) w"
| "traverseAnnotation K (PreconditionAnnot P) w =
     reduceAnnotationT K (PreconditionAnnot P) (traverse K P w)"
| "traverseAnnotation K (TestTripletAnnot A B C) w =
     reduceAnnotationT K (TestTripletAnnot A B C) (traverse K C (traverse K B (traverse K A w)))"

text \<open>
  Modelled from the spec: \<^verbatim>\<open>ByteStreamWriterBase::flush\<close> (body in Bytecode.cpp), "writes
  out whatever partial atom remains".  \<^verbatim>\<open>BytecodeWriter::write\<close>, lines 339-342, is
  \<open>writeSExpr\<close> here (\<open>write\<close> is a keyword of Isabelle).
\<close>

definition flush :: "ByteStreamWriter \<Rightarrow> ByteStreamWriter" where
  "flush w = (if Buffer w = [] then w else endAtom w)"

definition writeSExpr :: "(TIL_AnnKind \<Rightarrow> 8 word) \<Rightarrow> SExpr \<Rightarrow> ByteStreamWriter \<Rightarrow> ByteStreamWriter" where
  "writeSExpr K E w = flush (traverse K E w)"

text \<open>
  The stream the specification describes for an expression: the atoms of the children,
  the node's atom (opcode, then scalar fields), and for each annotation in list order
  the atoms of its sub-expressions followed by the annotation's own atom
  (\<open>PSOP_Annotation\<close> in 6 bits, the kind in 8 bits, the payload).
\<close>

definition annAtom :: "(TIL_AnnKind \<Rightarrow> 8 word) \<Rightarrow> Annotation \<Rightarrow> bitstream" where
  "annAtom K A =
     map (bit PSOP_Annotation) [0..<6] @ map (bit (K (kind A))) [0..<8]
       @ stream (serialize A newByteStreamWriter)"

fun atomsOf :: "(TIL_AnnKind \<Rightarrow> 8 word) \<Rightarrow> SExpr \<Rightarrow> bitstream list"
and annAtoms :: "(TIL_AnnKind \<Rightarrow> 8 word) \<Rightarrow> Annotation \<Rightarrow> bitstream list" where
  "atomsOf K (SExpr Op Fs As Anns) =
     concat (map (atomsOf K) As)
       @ [map (bit ((ucast PSOP_Last :: 32 word) + Op)) [0..<6] @ Fs]
       @ concat (map (annAtoms K) Anns)"
| "annAtoms K (InstrNameAnnot Name) = [annAtom K (InstrNameAnnot Name)]"
| "annAtoms K (SourceLocAnnot Position) = [annAtom K (SourceLocAnnot Position)]"
| "annAtoms K (PreconditionAnnot P) = atomsOf K P @ [annAtom K (PreconditionAnnot P)]"
| "annAtoms K (TestTripletAnnot A B C) =
     atomsOf K A @ atomsOf K B @ atomsOf K C @ [annAtom K (TestTripletAnnot A B C)]"

section \<open>The deserializing driver (BytecodeReader)\<close>

text \<open>
  The members of \<^verbatim>\<open>BytecodeReader\<close> (lines 490-502) that the functions below use:
  \<open>Success\<close>, \<open>Stack\<close> and \<open>Vars\<close>; the top of the stack is the last element, as in the
  \<^verbatim>\<open>std::vector\<close>.  \<open>Cerr\<close> collects the lines written to \<^verbatim>\<open>std::cerr\<close>.  A variable
  declaration is represented by the bits of the atom that declared it; the null pointer
  is \<open>None\<close>.  The constructor (lines 462-466) starts with one null entry in \<open>Vars\<close>.
  \<^verbatim>\<open>fail\<close>, \<^verbatim>\<open>success\<close>, \<^verbatim>\<open>arg\<close>, \<^verbatim>\<open>push\<close>, \<^verbatim>\<open>drop\<close> (here \<open>drop_n\<close>) and \<^verbatim>\<open>lastArgs\<close>
  are the inline methods of lines 386-393 and 470-484; the readers below call \<open>arg\<close>
  and \<open>drop_n\<close> only after checking the depth of the stack.
\<close>

datatype VarDecl = VarDecl bitstream

record BytecodeReader =
  Success :: bool
  Cerr :: "string list"
  Stack :: "SExpr list"
  Vars :: "VarDecl option list"

definition newBytecodeReader :: BytecodeReader where
  "newBytecodeReader = \<lparr>Success = True, Cerr = [], Stack = [], Vars = [None]\<rparr>"

definition fail :: "string \<Rightarrow> BytecodeReader \<Rightarrow> BytecodeReader" where
  "fail Msg r = r\<lparr>Cerr := Cerr r @ [Msg], Success := False\<rparr>"

definition success :: "BytecodeReader \<Rightarrow> bool" where
  "success r = Success r"

definition arg :: "nat \<Rightarrow> BytecodeReader \<Rightarrow> SExpr" where
  "arg i r = Stack r ! (length (Stack r) - 1 - i)"

definition push :: "SExpr \<Rightarrow> BytecodeReader \<Rightarrow> BytecodeReader" where
  "push E r = r\<lparr>Stack := Stack r @ [E]\<rparr>"

definition drop_n :: "nat \<Rightarrow> BytecodeReader \<Rightarrow> BytecodeReader" where
  "drop_n n r = r\<lparr>Stack := take (length (Stack r) - n) (Stack r)\<rparr>"

definition lastArgs :: "nat \<Rightarrow> BytecodeReader \<Rightarrow> SExpr list" where
  "lastArgs n r = drop (length (Stack r) - n) (Stack r)"

text \<open>
  Modelled from the spec: \<^verbatim>\<open>readBytes\<close> and \<^verbatim>\<open>readString\<close> (bodies in Bytecode.cpp): the
  VBR length, then that many raw bytes.
\<close>

fun readBytes :: "nat \<Rightarrow> bitstream \<Rightarrow> (8 word list \<times> bitstream) option" where
  "readBytes 0 inp = Some ([], inp)"
| "readBytes (Suc n) inp =
     do {
       (b, inp1) \<leftarrow> readBits32 8 inp;
       (bs, inp2) \<leftarrow> readBytes n inp1;
       Some (ucast b # bs, inp2)
     }"

definition readString :: "bitstream \<Rightarrow> (8 word list \<times> bitstream) option" where
  "readString inp = do { (len, inp1) \<leftarrow> readUInt32_Vbr inp; readBytes (unat len) inp1 }"

text \<open>
  Modelled from the spec: the builder's attaching of an annotation to a node, and the
  \<^verbatim>\<open>deserialize\<close> methods of the annotation classes (bodies in AnnotationImpl.cpp).
  "Consume annotations ..., attaching each to the most-recently pushed node": the
  annotation goes to the end of the annotation list of the node on top of the stack.
  An annotation with sub-expressions takes them from the top of the stack, where the
  stream has just put them, before it is attached.
\<close>

fun addAnnotation :: "SExpr \<Rightarrow> Annotation \<Rightarrow> SExpr" where
  "addAnnotation (SExpr Op Fs As Anns) A = SExpr Op Fs As (Anns @ [A])"

definition attach :: "Annotation \<Rightarrow> BytecodeReader \<Rightarrow> BytecodeReader" where
  "attach A r =
     (if Stack r = [] then fail ''Annotation without an expression.'' r
      else r\<lparr>Stack := butlast (Stack r) @ [addAnnotation (arg 0 r) A]\<rparr>)"

fun readAnnotationByKind :: "TIL_AnnKind \<Rightarrow> bitstream \<Rightarrow> BytecodeReader \<Rightarrow> BytecodeReader" where
  "readAnnotationByKind ANNKIND_InstrNameAnnot inp r =
     (case readString inp of
        None \<Rightarrow> fail ''Cannot read past end of stream.'' r
      | Some (Name, rest) \<Rightarrow> attach (InstrNameAnnot Name) r)"
| "readAnnotationByKind ANNKIND_SourceLocAnnot inp r =
     (case readUInt64 inp of
        None \<Rightarrow> fail ''Cannot read past end of stream.'' r
      | Some (Position, rest) \<Rightarrow> attach (SourceLocAnnot Position) r)"
| "readAnnotationByKind ANNKIND_PreconditionAnnot inp r =
     (if length (Stack r) < 1 then fail ''Too few arguments on stack.'' r
      else attach (PreconditionAnnot (arg 0 r)) (drop_n 1 r))"
| "readAnnotationByKind ANNKIND_TestTripletAnnot inp r =
     (if length (Stack r) < 3 then fail ''Too few arguments on stack.'' r
      else attach (TestTripletAnnot (arg 2 r) (arg 1 r) (arg 0 r)) (drop_n 3 r))"

text \<open>
  Modelled from the spec: \<^verbatim>\<open>readAnnotation\<close> and \<^verbatim>\<open>readAnnotationByKind\<close> (declared at
  lines 403-407, bodies in Bytecode.cpp).  The 8-bit kind is read with \<^verbatim>\<open>readFlag\<close> and
  compared with the enumerators' values.
\<close>

definition kindOfValue :: "(TIL_AnnKind \<Rightarrow> 8 word) \<Rightarrow> 8 word \<Rightarrow> TIL_AnnKind option" where
  "kindOfValue K v =
     find (\<lambda>k. K k = v)
       [ANNKIND_InstrNameAnnot, ANNKIND_SourceLocAnnot, ANNKIND_PreconditionAnnot,
        ANNKIND_TestTripletAnnot]"

definition readAnnotation ::
  "(TIL_AnnKind \<Rightarrow> 8 word) \<Rightarrow> bitstream \<Rightarrow> BytecodeReader \<Rightarrow> BytecodeReader" where
  "readAnnotation K inp r =
     (case readFlag F_TIL_AnnKind inp of
        None \<Rightarrow> fail ''Cannot read past end of stream.'' r
      | Some (v, rest) \<Rightarrow>
          (case kindOfValue K (ucast v) of
             None \<Rightarrow> fail ''Invalid annotation kind.'' r
           | Some Ak \<Rightarrow> readAnnotationByKind Ak rest r))"

text \<open>
  Modelled from the spec: \<^verbatim>\<open>readSExprByType\<close> (body in Bytecode.cpp).  The per-opcode
  reader "reads the node's scalar fields, pops its operands from the top of the value
  stack (the arity is determined by the opcode), asks the builder to construct the
  node, pushes the new node onto the stack".  The table of arities is the parameter
  \<open>arity\<close>; an opcode outside the table is an unknown opcode.  The scalar fields are
  the bits of the atom after the opcode.
\<close>

definition readSExprByType ::
  "(32 word \<Rightarrow> nat option) \<Rightarrow> 32 word \<Rightarrow> bitstream \<Rightarrow> BytecodeReader \<Rightarrow> BytecodeReader" where
  "readSExprByType arity Op inp r =
     (case arity Op of
        None \<Rightarrow> fail ''Invalid opcode.'' r
      | Some n \<Rightarrow>
          if length (Stack r) < n then fail ''Too few arguments on stack.'' r
          else push (SExpr Op inp (lastArgs n r) []) (drop_n n r))"

text \<open>
  Modelled from the spec: \<^verbatim>\<open>enterScope\<close>, \<^verbatim>\<open>exitScope\<close> and \<^verbatim>\<open>getVarDecl\<close> (declared at
  lines 409-415, bodies in Bytecode.cpp).  "EnterScope allocates a new VarDecl in the
  symbol table; ExitScope pops the innermost scope"; an \<open>ExitScope\<close> with no scope open
  is a pseudo-opcode out of context, which is fatal.  "Lookup by out-of-range index is
  a fatal error."
\<close>

definition enterScope :: "bitstream \<Rightarrow> BytecodeReader \<Rightarrow> BytecodeReader" where
  "enterScope inp r = r\<lparr>Vars := Vars r @ [Some (VarDecl inp)]\<rparr>"

definition exitScope :: "BytecodeReader \<Rightarrow> BytecodeReader" where
  "exitScope r =
     (if length (Vars r) \<le> 1 then fail ''ExitScope without a scope.'' r
      else r\<lparr>Vars := butlast (Vars r)\<rparr>)"

definition getVarDecl :: "nat \<Rightarrow> BytecodeReader \<Rightarrow> VarDecl option \<times> BytecodeReader" where
  "getVarDecl Vidx r =
     (if Vidx \<ge> length (Vars r) then (None, fail ''Invalid variable index.'' r)
      else (Vars r ! Vidx, r))"

text \<open>
  Modelled from the spec: \<^verbatim>\<open>readSExpr\<close> (body in Bytecode.cpp), one atom: the opcode is
  read and dispatched.  The model covers expressions, annotations and scopes.  The
  pseudo-opcodes of basic blocks and instruction references are out of context outside
  a CFG; \<open>EnterCFG\<close> and \<open>Null\<close> need the CFG builder and null operands, which this
  model does not have, and it stops at them in the same way.
\<close>

definition readSExpr ::
  "(TIL_AnnKind \<Rightarrow> 8 word) \<Rightarrow> (32 word \<Rightarrow> nat option) \<Rightarrow> bitstream \<Rightarrow> BytecodeReader
    \<Rightarrow> BytecodeReader" where
  "readSExpr K arity atom r =
     (case readPseudoOpcode atom of
        None \<Rightarrow> fail ''Cannot read past end of stream.'' r
      | Some (Psop, inp) \<Rightarrow>
          (case dispatch Psop of
             Real Op \<Rightarrow> readSExprByType arity Op inp r
           | Pseudo P \<Rightarrow>
               if P = PSOP_Annotation then readAnnotation K inp r
               else if P = PSOP_EnterScope then enterScope inp r
               else if P = PSOP_ExitScope then exitScope r
               else fail ''Pseudo-opcode outside a CFG.'' r))"

text \<open>
  Modelled from the spec: \<^verbatim>\<open>BytecodeReader::read\<close> (declared at line 468, body in
  Bytecode.cpp).  The input is the sequence of atoms; the reader's \<^verbatim>\<open>endAtom\<close> after a
  node or annotation moves to the next one.  The loop "reads one opcode at a time and
  dispatches" and "the first fatal error short-circuits the rest of the decode".  At
  the end "the value stack contains exactly one entry, the reconstructed root, which is
  returned; any other residual stack state is a protocol violation", and "any fatal
  condition ... causes read() to return a null root".
\<close>

fun readLoop ::
  "(TIL_AnnKind \<Rightarrow> 8 word) \<Rightarrow> (32 word \<Rightarrow> nat option) \<Rightarrow> bitstream list \<Rightarrow> BytecodeReader
    \<Rightarrow> BytecodeReader" where
  "readLoop K arity [] r = r"
| "readLoop K arity (atom # atoms) r =
     (if success r then readLoop K arity atoms (readSExpr K arity atom r) else r)"

definition read ::
  "(TIL_AnnKind \<Rightarrow> 8 word) \<Rightarrow> (32 word \<Rightarrow> nat option) \<Rightarrow> bitstream list \<Rightarrow> BytecodeReader
    \<Rightarrow> SExpr option \<times> BytecodeReader" where
  "read K arity atoms r =
     (let r1 = readLoop K arity atoms r
      in if \<not> success r1 then (None, r1)
         else (case Stack r1 of
                 [root] \<Rightarrow> (Some root, r1)
               | _ \<Rightarrow> (None, fail ''Malformed stream: one expression expected on the stack.'' r1)))"

text \<open>
  The expressions the format can carry: every opcode fits the 6-bit field together with
  the pseudo-opcodes, every node has as many children as the arity of its opcode, and a
  name is at most \<open>2^32 - 1\<close> bytes long.
\<close>

fun wfSExpr :: "(32 word \<Rightarrow> nat option) \<Rightarrow> SExpr \<Rightarrow> bool"
and wfAnnotation :: "(32 word \<Rightarrow> nat option) \<Rightarrow> Annotation \<Rightarrow> bool" where
  "wfSExpr arity (SExpr Op Fs As Anns) \<longleftrightarrow>
     unat Op + unat PSOP_Last < 2 ^ getBitSize F_PseudoOpcode \<and> arity Op = Some (length As)
     \<and> (\<forall>A \<in> set As. wfSExpr arity A) \<and> (\<forall>A \<in> set Anns. wfAnnotation arity A)"
| "wfAnnotation arity (InstrNameAnnot Name) \<longleftrightarrow> length Name < 2 ^ 32"
| "wfAnnotation arity (SourceLocAnnot Position) \<longleftrightarrow> True"
| "wfAnnotation arity (PreconditionAnnot P) \<longleftrightarrow> wfSExpr arity P"
| "wfAnnotation arity (TestTripletAnnot A B C) \<longleftrightarrow>
     wfSExpr arity A \<and> wfSExpr arity B \<and> wfSExpr arity C"

subsection \<open>A small vocabulary to run the model on\<close>

text \<open>
  Kinds numbered 0 to 3, a leaf opcode 11 and a binary opcode 21; an addition of two
  variables that carries a name, a precondition with a nested binary expression and a
  source position; and a stream that opens two scopes and closes one.
\<close>

definition exampleKinds :: "TIL_AnnKind \<Rightarrow> 8 word" where
  "exampleKinds k =
     (case k of
        ANNKIND_InstrNameAnnot \<Rightarrow> 0
      | ANNKIND_SourceLocAnnot \<Rightarrow> 1
      | ANNKIND_PreconditionAnnot \<Rightarrow> 2
      | ANNKIND_TestTripletAnnot \<Rightarrow> 3)"

definition exampleArity :: "32 word \<Rightarrow> nat option" where
  "exampleArity Op = (if Op = 11 then Some 0 else if Op = 21 then Some 2 else None)"

definition exampleVarX :: SExpr where
  "exampleVarX = SExpr 11 [True, False] [] []"

definition exampleVarY :: SExpr where
  "exampleVarY = SExpr 11 [False, True] [] []"

definition exampleAdd :: SExpr where
  "exampleAdd =
     SExpr 21 [True] [exampleVarX, exampleVarY]
       [InstrNameAnnot [0x78],
        PreconditionAnnot (SExpr 21 [False] [exampleVarY, exampleVarX] []),
        SourceLocAnnot 300]"

definition exampleScopes :: "bitstream list" where
  "exampleScopes =
     [map (bit PSOP_EnterScope) [0..<6] @ [True],
      map (bit PSOP_EnterScope) [0..<6] @ [False],
      map (bit PSOP_ExitScope) [0..<6]]"

section \<open>Round trip of expressions with annotations\<close>

subsection \<open>What the writer appends\<close>

lemma writeBits32_appends:
  "writeBits32 V n w = w\<lparr>Buffer := Buffer w @ map (bit V) [0..<n]\<rparr>"
  by (simp add: writeBits32_def writeBits_def)

lemma writePseudoOpcode_appends:
  "writePseudoOpcode P w = w\<lparr>Buffer := Buffer w @ map (bit P) [0..<6]\<rparr>"
  by (simp add: writePseudoOpcode_def writeFlag_def writeBits32_appends getBitSize_def bits_ucast_up)

lemma writeOpcode_appends:
  "writeOpcode Op w = w\<lparr>Buffer := Buffer w @ map (bit ((ucast PSOP_Last :: 32 word) + Op)) [0..<6]\<rparr>"
  by (simp add: writeOpcode_def writePseudoOpcode_appends bit_ucast_iff)

lemma writeBytes_appends:
  "writeBytes Data w = w\<lparr>Buffer := Buffer w @ concat (map (\<lambda>b. map (bit b) [0..<8]) Data)\<rparr>"
  unfolding writeBytes_def
  by (induction Data arbitrary: w) (simp_all add: writeBits32_appends bits_ucast_up)

lemma writeString_appends:
  "writeString S w = w\<lparr>Buffer := Buffer w
      @ vbrLayout (vbrGroups (word_of_nat (length S) :: 32 word)) (word_of_nat (length S) :: 32 word)
      @ concat (map (\<lambda>b. map (bit b) [0..<8]) S)\<rparr>"
  by (simp add: writeString_def writeBytes_appends writeUInt32_Vbr_def writeVbr_layout)

lemma serialize_appends:
  "serialize A w = w\<lparr>Buffer := Buffer w @ stream (serialize A newByteStreamWriter)\<rparr>"
  by (cases A)
     (simp_all add: writeString_appends writeUInt64_def writeUInt64_Vbr_def writeVbr_layout
        stream_def newByteStreamWriter_def)

lemma reduceAnnotationT_appends:
  "reduceAnnotationT K A w = w\<lparr>Buffer := Buffer w @ annAtom K A\<rparr>"
  unfolding reduceAnnotationT_def annAtom_def
  by (subst serialize_appends)
     (simp add: writeFlag_def writeBits32_appends writePseudoOpcode_appends getBitSize_def
        bits_ucast_up)

lemma fold_closes_atoms:
  assumes "\<And>x w. x \<in> set xs \<Longrightarrow> Buffer w = [] \<Longrightarrow> f x w = \<lparr>Atoms = Atoms w @ g x, Buffer = []\<rparr>"
    and "Buffer w = []"
  shows "fold f xs w = \<lparr>Atoms = Atoms w @ concat (map g xs), Buffer = []\<rparr>"
  using assms
proof (induction xs arbitrary: w)
  case Nil
  then show ?case by simp
next
  case (Cons x xs)
  have step: "f x w = \<lparr>Atoms = Atoms w @ g x, Buffer = []\<rparr>"
    using Cons.prems by simp
  have "fold f xs (f x w) = \<lparr>Atoms = Atoms (f x w) @ concat (map g xs), Buffer = []\<rparr>"
    by (rule Cons.IH) (use Cons.prems step in simp_all)
  then show ?case by (simp add: step)
qed

lemma traverse_atoms:
  "Buffer w = [] \<Longrightarrow> traverse K E w = \<lparr>Atoms = Atoms w @ atomsOf K E, Buffer = []\<rparr>"
  and traverseAnnotation_atoms:
  "Buffer w = [] \<Longrightarrow>
     endAtom (traverseAnnotation K A w) = \<lparr>Atoms = Atoms w @ annAtoms K A, Buffer = []\<rparr>"
proof (induction K E w and K A w rule: traverse_traverseAnnotation.induct)
  case (1 K Op Fs As Anns w)
  have kids: "fold (traverse K) As w = \<lparr>Atoms = Atoms w @ concat (map (atomsOf K) As), Buffer = []\<rparr>"
    by (rule fold_closes_atoms) (use 1 in auto)
  have node: "endAtom (writeFieldBits Fs (writeOpcode Op (fold (traverse K) As w)))
      = \<lparr>Atoms = Atoms w @ concat (map (atomsOf K) As)
            @ [map (bit ((ucast PSOP_Last :: 32 word) + Op)) [0..<6] @ Fs], Buffer = []\<rparr>"
    unfolding kids by (simp add: endAtom_def writeFieldBits_def writeOpcode_appends)
  have "fold (\<lambda>A w'. endAtom (traverseAnnotation K A w')) Anns
          (endAtom (writeFieldBits Fs (writeOpcode Op (fold (traverse K) As w))))
      = \<lparr>Atoms = Atoms (endAtom (writeFieldBits Fs (writeOpcode Op (fold (traverse K) As w))))
            @ concat (map (annAtoms K) Anns), Buffer = []\<rparr>"
    by (rule fold_closes_atoms) (use 1 node in auto)
  then show ?case
    by (simp add: node)
next
  case (2 K Name w)
  then show ?case by (simp add: reduceAnnotationT_appends endAtom_def)
next
  case (3 K Position w)
  then show ?case by (simp add: reduceAnnotationT_appends endAtom_def)
next
  case (4 K P w)
  then show ?case by (simp add: reduceAnnotationT_appends endAtom_def)
next
  case (5 K A B C w)
  then show ?case by (simp add: reduceAnnotationT_appends endAtom_def)
qed

lemma writeSExpr_atoms:
  "writeSExpr K E newByteStreamWriter = \<lparr>Atoms = atomsOf K E, Buffer = []\<rparr>"
  by (simp add: writeSExpr_def flush_def traverse_atoms newByteStreamWriter_def)

subsection \<open>What the reader makes of the atoms\<close>

lemma readLoop_failed: "\<not> Success r \<Longrightarrow> readLoop K arity atoms r = r"
  by (cases atoms) (simp_all add: success_def)

lemma readLoop_append:
  "readLoop K arity (xs @ ys) r = readLoop K arity ys (readLoop K arity xs r)"
  by (induction xs arbitrary: r) (simp_all add: readLoop_failed success_def)

lemma readPseudoOpcode_bits:
  "readPseudoOpcode (map (bit P) [0..<6] @ rest) = Some (take_bit 6 P, rest)"
  using readPseudoOpcode_writePseudoOpcode[of P rest]
  by (simp add: stream_writePseudoOpcode stream_new)

lemma readPseudoOpcode_opcode:
  assumes "unat Op + unat PSOP_Last < 2 ^ getBitSize F_PseudoOpcode"
  shows "readPseudoOpcode (map (bit ((ucast PSOP_Last :: 32 word) + Op)) [0..<6] @ rest)
           = Some (PSOP_Last + ucast Op, rest)"
proof -
  note code = opcode_code[OF assms]
  have "unat (PSOP_Last + (ucast Op :: 8 word)) < 2 ^ 6"
    using assms by (simp add: code(2) unat_PSOP_Last getBitSize_def)
  then have tb: "take_bit 6 (PSOP_Last + (ucast Op :: 8 word)) = PSOP_Last + ucast Op"
    by (rule take_bit_word_small)
  have "map (bit ((ucast PSOP_Last :: 32 word) + Op)) [0..<6]
      = map (bit (PSOP_Last + (ucast Op :: 8 word))) [0..<6]"
    unfolding code(1)[symmetric] by (simp add: bit_ucast_iff)
  then show ?thesis
    by (simp only: readPseudoOpcode_bits tb)
qed

lemma dispatch_opcode:
  assumes "unat Op + unat PSOP_Last < 2 ^ getBitSize F_PseudoOpcode"
  shows "dispatch (PSOP_Last + ucast Op) = Real Op"
proof -
  note code = opcode_code[OF assms]
  have "PSOP_Last \<le> PSOP_Last + (ucast Op :: 8 word)"
    by (simp add: word_le_nat_alt code(2) unat_PSOP_Last)
  then show ?thesis
    by (simp add: dispatch_def code(3))
qed

lemma readSExpr_node:
  assumes "unat Op + unat PSOP_Last < 2 ^ getBitSize F_PseudoOpcode" "arity Op = Some (length As)"
    and "Stack r = S @ As"
  shows "readSExpr K arity (map (bit ((ucast PSOP_Last :: 32 word) + Op)) [0..<6] @ Fs) r
           = r\<lparr>Stack := S @ [SExpr Op Fs As []]\<rparr>"
  using assms(2,3)
  by (simp add: readSExpr_def readPseudoOpcode_opcode[OF assms(1)] dispatch_opcode[OF assms(1)]
      readSExprByType_def push_def drop_n_def lastArgs_def)

lemma readBytes_bits:
  "readBytes (length Data) (concat (map (\<lambda>b. map (bit b) [0..<8]) Data) @ rest) = Some (Data, rest)"
proof (induction Data)
  case Nil
  then show ?case by simp
next
  case (Cons b Data)
  have "readBits32 8 (map (bit b) [0..<8] @ concat (map (\<lambda>b. map (bit b) [0..<8]) Data) @ rest)
      = Some (take_bit 8 (ucast b), concat (map (\<lambda>b. map (bit b) [0..<8]) Data) @ rest)"
    using readBits32_bits[of 8 "ucast b :: 32 word"] by (simp add: bits_ucast_up)
  then show ?case
    using Cons.IH ucast_take_bit_ucast[of b, where 'b = 32] by simp
qed

lemma readString_writeString:
  assumes "length S < 2 ^ 32"
  shows "readString (stream (writeString S newByteStreamWriter) @ rest) = Some (S, rest)"
proof -
  have "unat (word_of_nat (length S) :: 32 word) = length S"
    using assms by (simp add: unat_of_nat)
  then show ?thesis
    by (simp add: writeString_appends stream_def newByteStreamWriter_def readString_def
        readUInt32_Vbr_layout readBytes_bits)
qed

lemma kindOfValue_kind:
  assumes "inj K"
  shows "kindOfValue K (K k) = Some k"
  using assms by (cases k) (auto simp add: kindOfValue_def dest: injD)

lemma PSOP_Annotation_code:
  "take_bit 6 PSOP_Annotation = PSOP_Annotation"
  "dispatch PSOP_Annotation = Pseudo PSOP_Annotation"
  by (simp_all add: PSOP_Annotation_def dispatch_def PSOP_Last_def)

lemma readSExpr_annAtom:
  assumes "inj K"
  shows "readSExpr K arity (annAtom K A) r
           = readAnnotationByKind (kind A) (stream (serialize A newByteStreamWriter)) r"
proof -
  have "readFlag F_TIL_AnnKind
          (map (bit (K (kind A))) [0..<8] @ stream (serialize A newByteStreamWriter))
      = Some (take_bit 8 (ucast (K (kind A))), stream (serialize A newByteStreamWriter))"
    using readFlag_bits[of F_TIL_AnnKind "ucast (K (kind A)) :: 32 word"]
    by (simp add: getBitSize_def bits_ucast_up)
  then show ?thesis
    using ucast_take_bit_ucast[of "K (kind A)", where 'b = 32]
    by (simp add: readSExpr_def annAtom_def readPseudoOpcode_bits PSOP_Annotation_code
        readAnnotation_def kindOfValue_kind[OF assms])
qed

lemma attach_top:
  "Stack r = S @ [SExpr Op Fs As Anns] \<Longrightarrow>
     attach A r = r\<lparr>Stack := S @ [SExpr Op Fs As (Anns @ [A])]\<rparr>"
  by (simp add: attach_def arg_def)

lemma readLoop_list:
  assumes "\<And>x r. x \<in> set xs \<Longrightarrow> Success r \<Longrightarrow> readLoop K arity (g x) r = r\<lparr>Stack := Stack r @ [x]\<rparr>"
    and "Success r"
  shows "readLoop K arity (concat (map g xs)) r = r\<lparr>Stack := Stack r @ xs\<rparr>"
  using assms
proof (induction xs arbitrary: r)
  case Nil
  then show ?case by simp
next
  case (Cons x xs)
  have step: "readLoop K arity (g x) r = r\<lparr>Stack := Stack r @ [x]\<rparr>"
    using Cons.prems by simp
  have "readLoop K arity (concat (map g xs)) (r\<lparr>Stack := Stack r @ [x]\<rparr>)
      = (r\<lparr>Stack := Stack r @ [x]\<rparr>)\<lparr>Stack := Stack (r\<lparr>Stack := Stack r @ [x]\<rparr>) @ xs\<rparr>"
    by (rule Cons.IH) (use Cons.prems in simp_all)
  then show ?case
    by (simp add: readLoop_append step)
qed

lemma readLoop_annotations:
  assumes "\<And>A r S Op Fs As Anns0. A \<in> set Anns \<Longrightarrow> Success r \<Longrightarrow>
        Stack r = S @ [SExpr Op Fs As Anns0] \<Longrightarrow>
        readLoop K arity (g A) r = r\<lparr>Stack := S @ [SExpr Op Fs As (Anns0 @ [A])]\<rparr>"
    and "Success r" "Stack r = S @ [SExpr Op Fs As Anns0]"
  shows "readLoop K arity (concat (map g Anns)) r = r\<lparr>Stack := S @ [SExpr Op Fs As (Anns0 @ Anns)]\<rparr>"
  using assms
proof (induction Anns arbitrary: r Anns0)
  case Nil
  then show ?case by simp
next
  case (Cons A Anns)
  have step: "readLoop K arity (g A) r = r\<lparr>Stack := S @ [SExpr Op Fs As (Anns0 @ [A])]\<rparr>"
    using Cons.prems by simp
  have "readLoop K arity (concat (map g Anns)) (r\<lparr>Stack := S @ [SExpr Op Fs As (Anns0 @ [A])]\<rparr>)
      = (r\<lparr>Stack := S @ [SExpr Op Fs As (Anns0 @ [A])]\<rparr>)
          \<lparr>Stack := S @ [SExpr Op Fs As ((Anns0 @ [A]) @ Anns)]\<rparr>"
    by (rule Cons.IH) (use Cons.prems in simp_all)
  then show ?case
    by (simp add: readLoop_append step)
qed

lemma readLoop_atomsOf:
  "wfSExpr arity E \<Longrightarrow> inj K \<Longrightarrow> Success r \<Longrightarrow>
     readLoop K arity (atomsOf K E) r = r\<lparr>Stack := Stack r @ [E]\<rparr>"
  and readLoop_annAtoms:
  "wfAnnotation arity A \<Longrightarrow> inj K \<Longrightarrow> Success r \<Longrightarrow> Stack r = S @ [SExpr Op Fs As Anns0] \<Longrightarrow>
     readLoop K arity (annAtoms K A) r = r\<lparr>Stack := S @ [SExpr Op Fs As (Anns0 @ [A])]\<rparr>"
proof (induction K E and K A arbitrary: r and r S Op Fs As Anns0 rule: atomsOf_annAtoms.induct)
  case (1 K Op' Fs' As' Anns')
  have kids: "readLoop K arity (concat (map (atomsOf K) As')) r = r\<lparr>Stack := Stack r @ As'\<rparr>"
    by (rule readLoop_list) (use 1 in auto)
  have node: "readLoop K arity [map (bit ((ucast PSOP_Last :: 32 word) + Op')) [0..<6] @ Fs']
        (r\<lparr>Stack := Stack r @ As'\<rparr>) = r\<lparr>Stack := Stack r @ [SExpr Op' Fs' As' []]\<rparr>"
    using 1(3,5) readSExpr_node[of Op' arity As' "r\<lparr>Stack := Stack r @ As'\<rparr>" "Stack r" K Fs']
    by (simp add: success_def)
  have anns: "readLoop K arity (concat (map (annAtoms K) Anns')) (r\<lparr>Stack := Stack r @ [SExpr Op' Fs' As' []]\<rparr>)
      = (r\<lparr>Stack := Stack r @ [SExpr Op' Fs' As' []]\<rparr>)\<lparr>Stack := Stack r @ [SExpr Op' Fs' As' ([] @ Anns')]\<rparr>"
    by (rule readLoop_annotations) (use 1 in auto)
  show ?case
    unfolding atomsOf.simps readLoop_append kids node anns by simp
next
  case (2 K Name)
  then show ?case
    by (simp add: readSExpr_annAtom success_def readString_writeString[where rest = "[]", simplified]
        attach_top)
next
  case (3 K Position)
  have "readUInt64 (stream (writeUInt64 Position newByteStreamWriter)) = Some (Position, [])"
    using readUInt64_Vbr_layout[of Position "[]"]
    by (simp add: readUInt64_def writeUInt64_def stream_writeUInt64_Vbr stream_new)
  with 3 show ?case
    by (simp add: readSExpr_annAtom success_def attach_top)
next
  case (4 K P)
  have sub: "readLoop K arity (atomsOf K P) r = r\<lparr>Stack := Stack r @ [P]\<rparr>"
    using 4 by simp
  show ?case
    using 4(2-5)
    by (simp add: readLoop_append sub readSExpr_annAtom success_def drop_n_def arg_def nth_append
        attach_top[where S = S and Op = Op and Fs = Fs and As = As and Anns = Anns0])
next
  case (5 K A B C)
  have sub: "readLoop K arity (atomsOf K A @ atomsOf K B @ atomsOf K C) r
      = r\<lparr>Stack := Stack r @ [A, B, C]\<rparr>"
    using 5 by (simp add: readLoop_append)
  have "readLoop K arity (annAtoms K (TestTripletAnnot A B C)) r
      = readLoop K arity [annAtom K (TestTripletAnnot A B C)] (r\<lparr>Stack := Stack r @ [A, B, C]\<rparr>)"
    using sub by (simp add: readLoop_append)
  then show ?case
    using 5(4-7)
    by (simp add: readSExpr_annAtom success_def drop_n_def arg_def nth_append
        attach_top[where S = S and Op = Op and Fs = Fs and As = As and Anns = Anns0])
qed

lemma inj_exampleKinds: "inj exampleKinds"
proof (rule injI)
  fix x y assume "exampleKinds x = exampleKinds y"
  then show "x = y"
    by (cases x; cases y) (simp_all add: exampleKinds_def)
qed

lemma wf_exampleAdd: "wfSExpr exampleArity exampleAdd"
  by (simp add: exampleAdd_def exampleVarX_def exampleVarY_def exampleArity_def
      PSOP_Last_def getBitSize_def)

text \<open>
  Claim C5.  For a node \<open>n\<close> with annotation list \<open>Anns\<close>: the writer closes the atom of
  \<open>n\<close> (the children's atoms, then the atom made of the opcode and the fields, buffer
  empty) before it visits the annotations, and visits them in list order, closing an
  atom after each.  The atoms written are those of the children, the node's atom and,
  for each annotation in list order, the atoms of its sub-expressions followed by its
  own atom, which starts with \<open>PSOP_Annotation\<close> in 6 bits and the annotation's kind in 8
  bits.  Reading these atoms returns \<open>n\<close>, with the annotation list \<open>Anns\<close> in the same
  order.
\<close>

theorem C5_annotations_in_order:
  assumes "wfSExpr arity (SExpr Op Fs As Anns)" "inj K"
  shows "traverse K (SExpr Op Fs As Anns) newByteStreamWriter
           = fold (\<lambda>A w. endAtom (traverseAnnotation K A w)) Anns
               \<lparr>Atoms = concat (map (atomsOf K) As)
                    @ [map (bit ((ucast PSOP_Last :: 32 word) + Op)) [0..<6] @ Fs],
                Buffer = []\<rparr>
    \<and> Atoms (writeSExpr K (SExpr Op Fs As Anns) newByteStreamWriter)
           = concat (map (atomsOf K) As)
               @ [map (bit ((ucast PSOP_Last :: 32 word) + Op)) [0..<6] @ Fs]
               @ concat (map (annAtoms K) Anns)
    \<and> (\<forall>A \<in> set Anns. \<exists>subs.
           annAtoms K A = subs @ [map (bit PSOP_Annotation) [0..<6] @ map (bit (K (kind A))) [0..<8]
                                   @ stream (serialize A newByteStreamWriter)])
    \<and> read K arity (Atoms (writeSExpr K (SExpr Op Fs As Anns) newByteStreamWriter)) newBytecodeReader
           = (Some (SExpr Op Fs As Anns), newBytecodeReader\<lparr>Stack := [SExpr Op Fs As Anns]\<rparr>)
    \<and> map_option annotations
          (fst (read K arity (Atoms (writeSExpr K (SExpr Op Fs As Anns) newByteStreamWriter))
                 newBytecodeReader))
           = Some Anns"
proof -
  let ?n = "SExpr Op Fs As Anns"
  have kids: "fold (traverse K) As newByteStreamWriter
      = \<lparr>Atoms = concat (map (atomsOf K) As), Buffer = []\<rparr>"
    using fold_closes_atoms[of As "traverse K" "atomsOf K" newByteStreamWriter]
    by (simp add: traverse_atoms newByteStreamWriter_def)
  have w1: "traverse K ?n newByteStreamWriter
           = fold (\<lambda>A w. endAtom (traverseAnnotation K A w)) Anns
               \<lparr>Atoms = concat (map (atomsOf K) As)
                    @ [map (bit ((ucast PSOP_Last :: 32 word) + Op)) [0..<6] @ Fs],
                Buffer = []\<rparr>"
    by (simp add: kids endAtom_def writeFieldBits_def writeOpcode_appends)
  have w2: "Atoms (writeSExpr K ?n newByteStreamWriter)
           = concat (map (atomsOf K) As)
               @ [map (bit ((ucast PSOP_Last :: 32 word) + Op)) [0..<6] @ Fs]
               @ concat (map (annAtoms K) Anns)"
    by (simp add: writeSExpr_atoms)
  have w3: "\<forall>A \<in> set Anns. \<exists>subs.
           annAtoms K A = subs @ [map (bit PSOP_Annotation) [0..<6] @ map (bit (K (kind A))) [0..<8]
                                   @ stream (serialize A newByteStreamWriter)]"
  proof
    fix A assume "A \<in> set Anns"
    show "\<exists>subs. annAtoms K A = subs @ [map (bit PSOP_Annotation) [0..<6]
        @ map (bit (K (kind A))) [0..<8] @ stream (serialize A newByteStreamWriter)]"
      by (cases A) (simp_all add: annAtom_def)
  qed
  have "readLoop K arity (atomsOf K ?n) newBytecodeReader
      = newBytecodeReader\<lparr>Stack := Stack newBytecodeReader @ [?n]\<rparr>"
    by (rule readLoop_atomsOf[OF assms]) (simp add: newBytecodeReader_def)
  then have r1: "read K arity (Atoms (writeSExpr K ?n newByteStreamWriter)) newBytecodeReader
           = (Some ?n, newBytecodeReader\<lparr>Stack := [?n]\<rparr>)"
    by (simp add: read_def writeSExpr_atoms success_def newBytecodeReader_def)
  have r2: "map_option annotations
          (fst (read K arity (Atoms (writeSExpr K ?n newByteStreamWriter)) newBytecodeReader))
           = Some Anns"
    unfolding r1 by simp
  from w1 w2 w3 r1 r2 show ?thesis by blast
qed

text \<open>The theorem at the annotated addition.\<close>

theorem C5_annotations_in_order_witness:
  "wfSExpr exampleArity exampleAdd \<and> inj exampleKinds
   \<and> map_option annotations
        (fst (read exampleKinds exampleArity
                (Atoms (writeSExpr exampleKinds exampleAdd newByteStreamWriter)) newBytecodeReader))
       = Some [InstrNameAnnot [0x78],
               PreconditionAnnot (SExpr 21 [False] [exampleVarY, exampleVarX] []),
               SourceLocAnnot 300]"
proof -
  have wf: "wfSExpr exampleArity
      (SExpr 21 [True] [exampleVarX, exampleVarY]
        [InstrNameAnnot [0x78],
         PreconditionAnnot (SExpr 21 [False] [exampleVarY, exampleVarX] []),
         SourceLocAnnot 300])"
    using wf_exampleAdd by (simp only: exampleAdd_def)
  from C5_annotations_in_order[OF wf inj_exampleKinds]
  have "map_option annotations
        (fst (read exampleKinds exampleArity
                (Atoms (writeSExpr exampleKinds
                  (SExpr 21 [True] [exampleVarX, exampleVarY]
                    [InstrNameAnnot [0x78],
                     PreconditionAnnot (SExpr 21 [False] [exampleVarY, exampleVarX] []),
                     SourceLocAnnot 300]) newByteStreamWriter)) newBytecodeReader))
       = Some [InstrNameAnnot [0x78],
               PreconditionAnnot (SExpr 21 [False] [exampleVarY, exampleVarX] []),
               SourceLocAnnot 300]"
    by (elim conjE)
  with wf inj_exampleKinds show ?thesis
    unfolding exampleAdd_def by (intro conjI)
qed

section \<open>Failure of the driver\<close>











lemma fail_simps:
  "Success (fail Msg r) = False" "Cerr (fail Msg r) = Cerr r @ [Msg]"
  "Stack (fail Msg r) = Stack r" "Vars (fail Msg r) = Vars r"
  by (simp_all add: fail_def)




























section \<open>The variable table\<close>

abbreviation varsInv :: "BytecodeReader \<Rightarrow> bool" where
  "varsInv r \<equiv> Vars r \<noteq> [] \<and> Vars r ! 0 = None
     \<and> (\<forall>i. 1 \<le> i \<and> i < length (Vars r) \<longrightarrow> Vars r ! i \<noteq> None)"

lemma attach_Vars: "Vars (attach A r) = Vars r"
  by (simp add: attach_def fail_simps)

lemma readAnnotationByKind_Vars: "Vars (readAnnotationByKind Ak inp r) = Vars r"
  by (cases Ak) (simp_all add: attach_Vars fail_simps drop_n_def split: option.splits)

lemma enterScope_inv: "varsInv r \<Longrightarrow> varsInv (enterScope inp r)"
  by (auto simp add: enterScope_def nth_append)

lemma exitScope_inv: "varsInv r \<Longrightarrow> varsInv (exitScope r)"
proof -
  assume inv: "varsInv r"
  show ?thesis
  proof (cases "length (Vars r) \<le> 1")
    case True
    with inv show ?thesis by (simp add: exitScope_def fail_simps)
  next
    case False
    then have "butlast (Vars r) \<noteq> []"
      by (cases "Vars r" rule: rev_cases) auto
    moreover have "butlast (Vars r) ! i = Vars r ! i" if "i < length (Vars r) - 1" for i
      using that by (simp add: nth_butlast)
    ultimately show ?thesis
      using inv False by (auto simp add: exitScope_def)
  qed
qed

lemma readSExpr_inv:
  assumes "varsInv r"
  shows "varsInv (readSExpr K arity atom r)"
proof (cases "readPseudoOpcode atom")
  case None
  with assms show ?thesis by (simp add: readSExpr_def fail_simps)
next
  case (Some a)
  obtain Psop inp where a: "a = (Psop, inp)" by (cases a)
  show ?thesis
  proof (cases "dispatch Psop")
    case (Real Op)
    have "Vars (readSExprByType arity Op inp r) = Vars r"
      by (simp add: readSExprByType_def fail_simps push_def drop_n_def split: option.splits)
    with assms show ?thesis
      using Some a Real by (simp add: readSExpr_def)
  next
    case (Pseudo P)
    have "Vars (readAnnotation K inp r) = Vars r"
      by (simp add: readAnnotation_def fail_simps readAnnotationByKind_Vars split: option.splits)
    with assms have "varsInv (readAnnotation K inp r)" by simp
    moreover have "varsInv (fail ''Pseudo-opcode outside a CFG.'' r)"
      using assms by (simp add: fail_simps)
    ultimately show ?thesis
      using Some a Pseudo enterScope_inv[OF assms, of inp] exitScope_inv[OF assms]
      by (simp add: readSExpr_def)
  qed
qed

lemma readLoop_inv: "varsInv r \<Longrightarrow> varsInv (readLoop K arity atoms r)"
proof (induction atoms arbitrary: r)
  case Nil
  then show ?case by simp
next
  case (Cons atom atoms)
  from Cons.prems have "varsInv (readSExpr K arity atom r)" by (rule readSExpr_inv)
  then have "varsInv (readLoop K arity atoms (readSExpr K arity atom r))" by (rule Cons.IH)
  with Cons.prems show ?case by simp
qed

lemma read_inv: "varsInv r \<Longrightarrow> varsInv (snd (read K arity atoms r))"
  using readLoop_inv[of r K arity atoms]
  by (simp add: read_def Let_def fail_simps split: list.splits)

text \<open>
  Claim C9.  The constructor puts a null entry in slot 0 of \<open>Vars\<close>.  Whatever atoms the
  reader has processed, \<open>Vars\<close> still has slot 0, slot 0 is still null, and
  \<^verbatim>\<open>getVarDecl\<close> at index 0 returns null without failing; every index from 1 up to the
  size of the table holds a declaration, which \<^verbatim>\<open>getVarDecl\<close> returns; an index beyond
  the table is a fatal error.
\<close>

theorem C9_vars_slot_zero_reserved:
  "Vars newBytecodeReader = [None]
   \<and> Vars (snd (read K arity atoms newBytecodeReader)) \<noteq> []
   \<and> Vars (snd (read K arity atoms newBytecodeReader)) ! 0 = None
   \<and> getVarDecl 0 (snd (read K arity atoms newBytecodeReader))
        = (None, snd (read K arity atoms newBytecodeReader))
   \<and> (1 \<le> i \<and> i < length (Vars (snd (read K arity atoms newBytecodeReader))) \<longrightarrow>
        (\<exists>Vd. getVarDecl i (snd (read K arity atoms newBytecodeReader))
                = (Some Vd, snd (read K arity atoms newBytecodeReader))))
   \<and> (length (Vars (snd (read K arity atoms newBytecodeReader))) \<le> j \<longrightarrow>
        fst (getVarDecl j (snd (read K arity atoms newBytecodeReader))) = None
        \<and> \<not> success (snd (getVarDecl j (snd (read K arity atoms newBytecodeReader)))))"
proof -
  let ?r = "snd (read K arity atoms newBytecodeReader)"
  have "varsInv newBytecodeReader" by (simp add: newBytecodeReader_def)
  then have inv: "varsInv ?r" by (rule read_inv)
  have new: "Vars newBytecodeReader = [None]" by (simp add: newBytecodeReader_def)
  from inv have zero: "getVarDecl 0 ?r = (None, ?r)"
    by (simp add: getVarDecl_def)
  have live: "1 \<le> i \<and> i < length (Vars ?r) \<longrightarrow> (\<exists>Vd. getVarDecl i ?r = (Some Vd, ?r))"
    using inv by (auto simp add: getVarDecl_def)
  have out: "length (Vars ?r) \<le> j \<longrightarrow>
      fst (getVarDecl j ?r) = None \<and> \<not> success (snd (getVarDecl j ?r))"
    by (simp add: getVarDecl_def success_def fail_simps)
  from new inv zero live out show ?thesis by blast
qed

text \<open>The theorem after two \<open>EnterScope\<close> and one \<open>ExitScope\<close>, at indices 1 and 2.\<close>

theorem C9_vars_slot_zero_reserved_witness:
  "1 \<le> (1 :: nat)
   \<and> 1 < length (Vars (snd (read exampleKinds exampleArity exampleScopes newBytecodeReader)))
   \<and> Vars (snd (read exampleKinds exampleArity exampleScopes newBytecodeReader))
       = [None, Some (VarDecl [True])]
   \<and> (\<exists>Vd. getVarDecl 1 (snd (read exampleKinds exampleArity exampleScopes newBytecodeReader))
              = (Some Vd, snd (read exampleKinds exampleArity exampleScopes newBytecodeReader)))
   \<and> length (Vars (snd (read exampleKinds exampleArity exampleScopes newBytecodeReader))) \<le> 2
   \<and> fst (getVarDecl 2 (snd (read exampleKinds exampleArity exampleScopes newBytecodeReader))) = None
   \<and> \<not> success (snd (getVarDecl 2
          (snd (read exampleKinds exampleArity exampleScopes newBytecodeReader))))"
proof -
  have v: "Vars (snd (read exampleKinds exampleArity exampleScopes newBytecodeReader))
      = [None, Some (VarDecl [True])]"
    by code_simp
  from C9_vars_slot_zero_reserved[where K = exampleKinds and arity = exampleArity
      and atoms = exampleScopes and i = 1 and j = 2] v
  show ?thesis by simp
qed

end
